theory Spec2Isabelle
  imports Complex_Main "HOL-Library.Product_Lexorder" "HOL-Library.List_Lexorder"
    "HOL-Library.Sublist" "HOL-Library.Multiset" "HOL-Library.Log_Nat"
begin

section \<open>Nodes in a store\<close>

text \<open>
  The operations of \<^verbatim>\<open>operations.pyx\<close> mutate node objects that refer to each other
  (\<^verbatim>\<open>node.up\<close>, \<^verbatim>\<open>node.children\<close>), so the structural edits are modelled over an
  explicit store from addresses to node objects. A node object has its parent reference,
  its ordered child sequence and its property dictionary; \<^verbatim>\<open>node.dist\<close> and
  \<^verbatim>\<open>node.support\<close> are the entries \<^verbatim>\<open>'dist'\<close> and \<^verbatim>\<open>'support'\<close> of
  \<^verbatim>\<open>node.props\<close>. Property values are numbers: a float is denoted by the rational
  number it stands for, and the arithmetic of the structural edits rounds to double
  precision.
\<close>

type_synonym addr = nat

record node =
  up :: "addr option"
  children :: "addr list"
  props :: "string \<rightharpoonup> rat"

type_synonym store = "addr \<Rightarrow> node"

datatype error =
  AssertionError string
  | ValueError
  | IndexError
  | AttributeError

text \<open>
  A call either returns (\<open>Inr\<close>) or raises (\<open>Inl\<close>); a raise carries the store as it is
  at that moment, which is what the caller is left with.
\<close>

type_synonym 'a result = "(error \<times> store) + 'a"

text \<open>\<^verbatim>\<open>list.index(x)\<close>: the first position of \<open>x\<close>; \<open>None\<close> stands for ValueError.\<close>

fun index_of :: "'a list \<Rightarrow> 'a \<Rightarrow> nat option" where
  "index_of [] x = None"
| "index_of (y # ys) x =
     (if y = x then Some 0 else map_option Suc (index_of ys x))"

text \<open>\<^verbatim>\<open>list.pop(i)\<close> and \<^verbatim>\<open>list.insert(i, x)\<close> for \<open>0 \<le> i\<close>.\<close>

definition pop_at :: "'a list \<Rightarrow> nat \<Rightarrow> 'a list" where
  "pop_at xs i = take i xs @ drop (Suc i) xs"

definition insert_at :: "'a list \<Rightarrow> nat \<Rightarrow> 'a \<Rightarrow> 'a list" where
  "insert_at xs i x = take i xs @ x # drop i xs"

subsection \<open>move\<close>

definition move :: "store \<Rightarrow> addr \<Rightarrow> int \<Rightarrow> store result" where
  "move s n shift =
     (case up (s n) of
        None \<Rightarrow> Inl (AssertionError ''cannot move the root'', s)
      | Some u \<Rightarrow>
          (let siblings = children (s u) in
           case index_of siblings n of
             None \<Rightarrow> Inl (ValueError, s)
           | Some pos_old \<Rightarrow>
               (let pos_new = nat ((int pos_old + shift) mod int (length siblings));
                    a = siblings ! pos_new;
                    b = siblings ! pos_old
                in Inr (s(u := (s u)\<lparr>children := (siblings[pos_old := a])[pos_new := b]\<rparr>)))))"

lemma index_of_Some_iff:
  "index_of xs x = Some i \<longleftrightarrow> i < length xs \<and> xs ! i = x \<and> x \<notin> set (take i xs)"
proof (induction xs arbitrary: i)
  case Nil
  show ?case by simp
next
  case (Cons y ys)
  show ?case
  proof (cases "y = x")
    case True
    then show ?thesis by (cases i) auto
  next
    case False
    then show ?thesis using Cons.IH by (cases i) auto
  qed
qed

lemma index_of_None_iff: "index_of xs x = None \<longleftrightarrow> x \<notin> set xs"
  by (induction xs) auto

lemma index_of_mem: "x \<in> set xs \<Longrightarrow> \<exists>i. index_of xs x = Some i"
  using index_of_None_iff [of xs x] by (cases "index_of xs x") auto


subsection \<open>A small tree for the examples\<close>

text \<open>
  The tree \<^verbatim>\<open>((a:1,b:3)x:2,c:4);\<close> laid out in a store: the root at address 0, \<open>x\<close> at 1,
  \<open>c\<close> at 2, \<open>a\<close> at 3 and \<open>b\<close> at 4. Every other address holds an unlinked empty node.
\<close>

definition new_node :: node where
  "new_node = \<lparr>up = None, children = [], props = Map.empty\<rparr>"

definition ex_store :: store where
  "ex_store =
     (\<lambda>_. new_node)
       (0 := \<lparr>up = None, children = [1, 2], props = Map.empty\<rparr>,
        1 := \<lparr>up = Some 0, children = [3, 4], props = [''dist'' \<mapsto> 2]\<rparr>,
        2 := \<lparr>up = Some 0, children = [], props = [''dist'' \<mapsto> 4]\<rparr>,
        3 := \<lparr>up = Some 1, children = [], props = [''dist'' \<mapsto> 1]\<rparr>,
        4 := \<lparr>up = Some 1, children = [], props = [''dist'' \<mapsto> 3]\<rparr>)"

section \<open>Moving a node among its siblings\<close>

lemma mod_length_less:
  assumes "i < length xs"
  shows "nat ((int i + k) mod int (length xs)) < length xs"
proof -
  have "0 < int (length xs)" using assms by (cases xs) simp_all
  then have "(int i + k) mod int (length xs) < int (length xs)"
    and "0 \<le> (int i + k) mod int (length xs)"
    by simp_all
  then show ?thesis by simp
qed

text \<open>
  Claim C6. For a node \<open>n\<close> with parent \<open>u\<close> (and \<open>n\<close> in the child sequence of \<open>u\<close>),
  \<open>move\<close> returns, and afterwards \<open>n\<close> stands at index \<open>(i + shift) mod len\<close> of the
  child sequence of \<open>u\<close>, where \<open>i\<close> was its index and \<open>len\<close> the number of children of
  \<open>u\<close>; the child sequence is a permutation of the old one (the sibling that stood at the
  new index takes the old one) and nothing else in the store changes. For a node without
  a parent, \<open>move\<close> raises the assertion error and leaves the store as it was.
\<close>

theorem move_cyclic_position:
  "(up (s n) = None \<longrightarrow>
      move s n shift = Inl (AssertionError ''cannot move the root'', s)) \<and>
   (up (s n) = Some u \<and> n \<in> set (children (s u)) \<longrightarrow>
      (\<exists>i s'. index_of (children (s u)) n = Some i
         \<and> move s n shift = Inr s'
         \<and> nat ((int i + shift) mod int (length (children (s u)))) < length (children (s' u))
         \<and> children (s' u) ! nat ((int i + shift) mod int (length (children (s u)))) = n
         \<and> mset (children (s' u)) = mset (children (s u))
         \<and> s' = s(u := (s u)\<lparr>children := children (s' u)\<rparr>)))"
proof (intro conjI impI)
  assume "up (s n) = None"
  then show "move s n shift = Inl (AssertionError ''cannot move the root'', s)"
    by (simp add: move_def)
next
  assume a: "up (s n) = Some u \<and> n \<in> set (children (s u))"
  define cs where "cs = children (s u)"
  have "n \<in> set cs" using a by (simp add: cs_def)
  then have "\<exists>i. index_of cs n = Some i" by (rule index_of_mem)
  then obtain i where i: "index_of cs n = Some i" ..
  then have il: "i < length cs" and ci: "cs ! i = n"
    by (simp_all add: index_of_Some_iff)
  define j where "j = nat ((int i + shift) mod int (length cs))"
  have jl: "j < length cs"
    unfolding j_def using il by (rule mod_length_less)
  define cs' where "cs' = (cs[i := cs ! j])[j := cs ! i]"
  define s' where "s' = s(u := (s u)\<lparr>children := cs'\<rparr>)"
  have m: "move s n shift = Inr s'"
    using a i by (simp add: move_def Let_def s'_def cs'_def j_def cs_def)
  have c: "children (s' u) = cs'" by (simp add: s'_def)
  have p: "mset cs' = mset cs"
    unfolding cs'_def using il jl by (simp add: mset_swap)
  have q: "cs' ! j = n" and l: "j < length cs'"
    unfolding cs'_def using jl ci by simp_all
  have e: "s' = s(u := (s u)\<lparr>children := children (s' u)\<rparr>)"
    unfolding c by (simp add: s'_def)
  show "\<exists>i s'. index_of (children (s u)) n = Some i
         \<and> move s n shift = Inr s'
         \<and> nat ((int i + shift) mod int (length (children (s u)))) < length (children (s' u))
         \<and> children (s' u) ! nat ((int i + shift) mod int (length (children (s u)))) = n
         \<and> mset (children (s' u)) = mset (children (s u))
         \<and> s' = s(u := (s u)\<lparr>children := children (s' u)\<rparr>)"
  proof (intro exI conjI)
    show "index_of (children (s u)) n = Some i" using i by (simp add: cs_def)
    show "move s n shift = Inr s'" by (rule m)
    show "nat ((int i + shift) mod int (length (children (s u)))) < length (children (s' u))"
      using l by (simp add: c j_def cs_def)
    show "children (s' u) ! nat ((int i + shift) mod int (length (children (s u)))) = n"
      using q by (simp add: c j_def cs_def)
    show "mset (children (s' u)) = mset (children (s u))"
      using p by (simp add: c cs_def)
    show "s' = s(u := (s u)\<lparr>children := children (s' u)\<rparr>)" by (rule e)
  qed
qed

theorem move_cyclic_position_witness:
  "up (ex_store 4) = Some 1 \<and> 4 \<in> set (children (ex_store 1))
   \<and> (\<exists>s'. move ex_store 4 3 = Inr s' \<and> children (s' 1) ! 0 = 4)
   \<and> up (ex_store 0) = None
   \<and> move ex_store 0 3 = Inl (AssertionError ''cannot move the root'', ex_store)"
proof -
  have h: "up (ex_store 4) = Some 1 \<and> 4 \<in> set (children (ex_store 1))"
    by (simp add: ex_store_def)
  have i: "index_of (children (ex_store 1)) 4 = Some 1"
    by (simp add: ex_store_def)
  have r: "up (ex_store 0) = None"
    by (simp add: ex_store_def)
  have l: "length (children (ex_store 1)) = 2"
    by (simp add: ex_store_def)
  from move_cyclic_position [of ex_store 4 3 1, THEN conjunct2, THEN mp, OF h]
  obtain j s' where "index_of (children (ex_store 1)) 4 = Some j"
    and "move ex_store 4 3 = Inr s'"
    and "children (s' 1) ! nat ((int j + 3) mod int (length (children (ex_store 1)))) = 4"
    by (elim exE conjE)
  then have "move ex_store 4 3 = Inr s' \<and> children (s' 1) ! 0 = 4"
    using i l by simp
  then have 1: "\<exists>s'. move ex_store 4 3 = Inr s' \<and> children (s' 1) ! 0 = 4"
    by (rule exI [where x = s'])
  have 2: "move ex_store 0 3 = Inl (AssertionError ''cannot move the root'', ex_store)"
    by (rule move_cyclic_position [of ex_store 0 3 1, THEN conjunct1, THEN mp, OF r])
  show ?thesis using h r 1 2 by (intro conjI) simp_all
qed


section \<open>Trees as values\<close>

text \<open>
  The whole-tree passes (\<^verbatim>\<open>ladderize\<close>, \<^verbatim>\<open>to_ultrametric\<close>, the size cache and the
  walker) only follow \<^verbatim>\<open>node.children\<close> downwards from the node they are given. For them
  the tree below a node is modelled as a finite value: a node carries its name, its
  property dictionary, its cached \<^verbatim>\<open>size\<close> and its ordered children. The in-place
  update of a pass is the tree it returns.
\<close>

datatype tree =
  Node (tname: string) (tprops: "string \<rightharpoonup> rat") (tsize: "rat \<times> nat") (kids: "tree list")

text \<open>Modelled from the spec: \<^verbatim>\<open>node.is_leaf\<close>, "a node is a leaf iff its child sequence is empty".\<close>

definition is_leaf :: "tree \<Rightarrow> bool" where
  "is_leaf t = (kids t = [])"

subsection \<open>Python's list.sort\<close>

text \<open>
  \<^verbatim>\<open>list.sort(key=key, reverse=reverse)\<close> is stable; with \<^verbatim>\<open>reverse=True\<close> the list is
  reversed, sorted stably and reversed again, so that elements with equal keys keep their
  order.
\<close>

definition py_sort :: "('a \<Rightarrow> 'k::linorder) \<Rightarrow> bool \<Rightarrow> 'a list \<Rightarrow> 'a list" where
  "py_sort key reverse xs =
     (if reverse then rev (sort_key key (rev xs)) else sort_key key xs)"

text \<open>\<^verbatim>\<open>max(...)\<close> over a non-empty sequence.\<close>

fun max_list :: "rat list \<Rightarrow> rat" where
  "max_list [] = 0"
| "max_list (x # xs) = fold max xs x"

subsection \<open>ladderize\<close>

text \<open>The branch length that \<^verbatim>\<open>ladderize\<close> considers for a node.\<close>

definition ladder_dist :: "bool \<Rightarrow> tree \<Rightarrow> rat" where
  "ladder_dist topological t =
     (if topological then 1
      else (case tprops t ''dist'' of None \<Rightarrow> 1 | Some d \<Rightarrow> d))"

text \<open>
  The sort key of a child: its entry in \<^verbatim>\<open>sizes\<close> and its number of children. A processed
  child is carried with its size.
\<close>

definition ladder_key :: "tree \<times> rat \<Rightarrow> rat \<times> nat" where
  "ladder_key c = (snd c, length (kids (fst c)))"

text \<open>
  The postorder pass: the children of a node are processed before the node; the node then
  sorts its children and records its own size. The result is the tree together with
  \<^verbatim>\<open>sizes[tree]\<close>.
\<close>

fun ladderize_sized :: "bool \<Rightarrow> bool \<Rightarrow> tree \<Rightarrow> tree \<times> rat" where
  "ladderize_sized topological reverse (Node nm ps sz ks) =
     (if ks = [] then (Node nm ps sz [], ladder_dist topological (Node nm ps sz []))
      else
        (let cs = py_sort ladder_key reverse (map (ladderize_sized topological reverse) ks)
         in (Node nm ps sz (map fst cs),
             ladder_dist topological (Node nm ps sz (map fst cs)) + max_list (map snd cs))))"

definition ladderize :: "bool \<Rightarrow> bool \<Rightarrow> tree \<Rightarrow> tree" where
  "ladderize topological reverse t = fst (ladderize_sized topological reverse t)"

text \<open>A tree without the order of its children.\<close>

datatype utree = UNode string "string \<rightharpoonup> rat" "rat \<times> nat" "utree multiset"

fun unordered :: "tree \<Rightarrow> utree" where
  "unordered (Node nm ps sz ks) = UNode nm ps sz (mset (map unordered ks))"


subsection \<open>Properties of ladderize\<close>

lemma py_sort_idem: "py_sort key r (py_sort key r xs) = py_sort key r xs"
  by (simp add: py_sort_def sort_key_id_if_sorted)

lemma set_py_sort: "set (py_sort key r xs) = set xs"
  by (simp add: py_sort_def)

lemma mset_py_sort: "mset (py_sort key r xs) = mset xs"
  by (simp add: py_sort_def)

lemma py_sort_Nil_iff: "py_sort key r xs = [] \<longleftrightarrow> xs = []"
  using set_py_sort [of key r xs] by (metis set_empty)

lemma ladderize_sized_fix:
  "ladderize_sized tp r (fst (ladderize_sized tp r t)) = ladderize_sized tp r t"
proof (induction t)
  case (Node nm ps sz ks)
  show ?case
  proof (cases "ks = []")
    case True
    then show ?thesis by simp
  next
    case False
    define cs where "cs = py_sort ladder_key r (map (ladderize_sized tp r) ks)"
    have cs_ne: "cs \<noteq> []" using False by (simp add: cs_def py_sort_Nil_iff)
    have res: "ladderize_sized tp r (Node nm ps sz ks) =
        (Node nm ps sz (map fst cs),
         ladder_dist tp (Node nm ps sz (map fst cs)) + max_list (map snd cs))"
      using False by (simp add: cs_def Let_def)
    have "\<And>c. c \<in> set cs \<Longrightarrow> ladderize_sized tp r (fst c) = c"
    proof -
      fix c assume "c \<in> set cs"
      then have "c \<in> set (map (ladderize_sized tp r) ks)"
        by (simp only: cs_def set_py_sort)
      then obtain k where k: "k \<in> set ks" and c: "c = ladderize_sized tp r k" by auto
      show "ladderize_sized tp r (fst c) = c"
        unfolding c using Node.IH [OF k] .
    qed
    then have m: "map (ladderize_sized tp r) (map fst cs) = cs"
      by (simp add: map_idI)
    have s: "py_sort ladder_key r cs = cs"
      unfolding cs_def by (rule py_sort_idem)
    have "ladderize_sized tp r (Node nm ps sz (map fst cs)) =
        (Node nm ps sz (map fst cs),
         ladder_dist tp (Node nm ps sz (map fst cs)) + max_list (map snd cs))"
      using cs_ne by (simp add: m s Let_def del: map_map)
    then show ?thesis by (simp only: res fst_conv)
  qed
qed

lemma unordered_ladderize_sized: "unordered (fst (ladderize_sized tp r t)) = unordered t"
proof (induction t)
  case (Node nm ps sz ks)
  show ?case
  proof (cases "ks = []")
    case True
    then show ?thesis by simp
  next
    case False
    define cs where "cs = py_sort ladder_key r (map (ladderize_sized tp r) ks)"
    have "mset (map unordered (map fst cs)) = image_mset (unordered \<circ> fst) (mset cs)"
      by simp
    also have "mset cs = mset (map (ladderize_sized tp r) ks)"
      by (simp only: cs_def mset_py_sort)
    also have "image_mset (unordered \<circ> fst) (mset (map (ladderize_sized tp r) ks))
        = image_mset (\<lambda>k. unordered (fst (ladderize_sized tp r k))) (mset ks)"
      by (simp add: multiset.map_comp comp_def)
    also have "\<dots> = image_mset unordered (mset ks)"
      using Node.IH by (intro image_mset_cong) simp
    finally have "mset (map unordered (map fst cs)) = mset (map unordered ks)"
      by simp
    then show ?thesis using False by (simp add: cs_def Let_def del: map_map mset_map)
  qed
qed


text \<open>
  Claim C7. Applying \<open>ladderize\<close> a second time, with the same arguments, returns the
  tree that the first application returned: the second pass changes no child order.
\<close>

theorem ladderize_idempotent:
  "ladderize topological reverse (ladderize topological reverse t)
     = ladderize topological reverse t"
  by (simp add: ladderize_def ladderize_sized_fix)

text \<open>
  Claim C10. \<open>ladderize\<close> changes only the order of the child sequences: forgetting that
  order, the tree after the pass is the tree before it, with the same nodes under the same
  parents and the same name, properties and cached size at every node.
\<close>

theorem ladderize_only_reorders:
  "unordered (ladderize topological reverse t) = unordered t"
  by (simp add: ladderize_def unordered_ladderize_sized)

section \<open>The traversal walker\<close>

text \<open>
  \<^verbatim>\<open>Walker.visiting\<close> is the stack of positions \<^verbatim>\<open>TreePos(node, nch)\<close>; here the list is
  kept with the top of the stack (Python's \<^verbatim>\<open>visiting[-1]\<close>) at its head.
\<close>

type_synonym visiting = "(tree \<times> nat) list"

definition go_back :: "visiting \<Rightarrow> visiting" where
  "go_back it =
     (case tl it of
        [] \<Rightarrow> []
      | (node, nch) # rest \<Rightarrow> (node, nch + 1) # rest)"

definition first_visit :: "visiting \<Rightarrow> bool" where
  "first_visit it = (snd (hd it) = 0)"

definition cur_node :: "visiting \<Rightarrow> tree" where
  "cur_node it = fst (hd it)"

definition node_id_of :: "visiting \<Rightarrow> nat list" where
  "node_id_of it = rev (map snd (tl it))"

definition has_unvisited_branches :: "visiting \<Rightarrow> bool" where
  "has_unvisited_branches it = (snd (hd it) < length (kids (fst (hd it))))"

definition add_next_branch :: "visiting \<Rightarrow> visiting" where
  "add_next_branch it = (kids (fst (hd it)) ! snd (hd it), 0) # it"

text \<open>The measure of the work left for a stack: what is left below the top position and
  what is left to the right of each position under it.\<close>

fun nodes_count :: "tree \<Rightarrow> nat" where
  "nodes_count (Node nm ps sz ks) = Suc (sum_list (map nodes_count ks))"

definition left_from :: "nat \<Rightarrow> tree \<Rightarrow> nat" where
  "left_from i t = Suc (2 * sum_list (map nodes_count (drop i (kids t))))"

fun work_left :: "visiting \<Rightarrow> nat" where
  "work_left [] = 0"
| "work_left ((t, i) # rest) =
     left_from i t + sum_list (map (\<lambda>(u, j). left_from (Suc j) u) rest)"

lemma left_from_pos: "0 < left_from i t"
  by (simp add: left_from_def)

lemma work_left_go_back: "it \<noteq> [] \<Longrightarrow> work_left (go_back it) < work_left it"
proof (cases it)
  case Nil
  then show "it \<noteq> [] \<Longrightarrow> ?thesis" by simp
next
  case (Cons a rest)
  obtain t i where a: "a = (t, i)" by (cases a)
  show ?thesis
  proof (cases rest)
    case Nil
    then show ?thesis using Cons a by (simp add: go_back_def left_from_def)
  next
    case (Cons b rest')
    obtain u j where b: "b = (u, j)" by (cases b)
    show ?thesis using \<open>it = a # rest\<close> Cons a b
      by (simp add: go_back_def left_from_pos)
  qed
qed

lemma nodes_count_kids: "nodes_count t = Suc (sum_list (map nodes_count (kids t)))"
  by (cases t) simp

lemma work_left_add_next_branch:
  assumes "it \<noteq> []" and "has_unvisited_branches it"
  shows "work_left (add_next_branch it) < work_left it"
proof -
  obtain t i rest where it: "it = (t, i) # rest"
    using assms(1) by (cases it) auto
  have i: "i < length (kids t)"
    using assms(2) by (simp add: it has_unvisited_branches_def)
  have d: "drop i (kids t) = kids t ! i # drop (Suc i) (kids t)"
    using i by (simp add: Cons_nth_drop_Suc)
  have "left_from 0 (kids t ! i) + left_from (Suc i) t < left_from i t"
    unfolding left_from_def d
    by (simp add: nodes_count_kids [of "kids t ! i"])
  then show ?thesis
    by (simp add: it add_next_branch_def)
qed


text \<open>
  The generator \<^verbatim>\<open>walk\<close>. Each \<^verbatim>\<open>yield it\<close> hands the walker to the caller, who may set
  \<^verbatim>\<open>it.descend = False\<close> before resuming; \<^verbatim>\<open>go_back\<close> sets it to True again, so at every
  yield the flag is True and what the caller does with it is a decision \<open>descend\<close> taken
  on the walker's position. The result is the sequence of positions yielded.
\<close>

function walk_from :: "(visiting \<Rightarrow> bool) \<Rightarrow> visiting \<Rightarrow> visiting list" where
  "walk_from descend it =
     (if it = [] then []
      else if first_visit it \<and> (is_leaf (cur_node it) \<or> \<not> descend it)
        then it # walk_from descend (go_back it)
      else (if first_visit it then [it] else []) @
        (if has_unvisited_branches it
           then walk_from descend (add_next_branch it)
         else it # walk_from descend (go_back it)))"
  by pat_completeness auto


termination
proof (relation "measure (\<lambda>(descend, it). work_left it)")
  show "wf (measure (\<lambda>(descend, it). work_left it))" by simp
next
  fix descend :: "visiting \<Rightarrow> bool" and it :: visiting
  assume "it \<noteq> []"
  then show "((descend, go_back it), (descend, it)) \<in> measure (\<lambda>(descend, it). work_left it)"
    by (simp add: work_left_go_back)
next
  fix descend :: "visiting \<Rightarrow> bool" and it :: visiting
  assume "it \<noteq> []" and "has_unvisited_branches it"
  then show "((descend, add_next_branch it), (descend, it))
      \<in> measure (\<lambda>(descend, it). work_left it)"
    by (simp add: work_left_add_next_branch)
next
  fix descend :: "visiting \<Rightarrow> bool" and it :: visiting
  assume "it \<noteq> []"
  then show "((descend, go_back it), (descend, it)) \<in> measure (\<lambda>(descend, it). work_left it)"
    by (simp add: work_left_go_back)
qed

declare walk_from.simps [simp del]

definition walk :: "(visiting \<Rightarrow> bool) \<Rightarrow> tree \<Rightarrow> visiting list" where
  "walk descend tree = walk_from descend [(tree, 0)]"

text \<open>
  The same example tree \<^verbatim>\<open>((a:1,b:3)x:2,c:4);\<close> as a value, with root \<open>r\<close>.
\<close>

definition ex_leaf :: "string \<Rightarrow> rat \<Rightarrow> tree" where
  "ex_leaf nm d = Node nm [''dist'' \<mapsto> d] (0, 0) []"

definition ex_x :: tree where
  "ex_x = Node ''x'' [''dist'' \<mapsto> 2] (0, 0) [ex_leaf ''a'' 1, ex_leaf ''b'' 3]"

definition ex_tree :: tree where
  "ex_tree = Node ''r'' Map.empty (0, 0) [ex_x, ex_leaf ''c'' 4]"

text \<open>A caller that signals "do not descend" at the node named \<open>x\<close>.\<close>

definition not_into_x :: "visiting \<Rightarrow> bool" where
  "not_into_x it = (tname (cur_node it) \<noteq> ''x'')"

text \<open>The counters of a position, from the root down to the current node.\<close>

definition counters :: "visiting \<Rightarrow> nat list" where
  "counters it = rev (map snd it)"

subsection \<open>Properties of the walker\<close>

lemma less_append_same: "(xs @ ys < xs @ zs) = (ys < (zs :: nat list))"
  by (induction xs) auto

lemma le_append_same: "(xs @ ys \<le> xs @ zs) = (ys \<le> (zs :: nat list))"
  by (induction xs) auto

lemma counters_go_back:
  assumes "go_back it \<noteq> []"
  shows "counters it < counters (go_back it)"
proof -
  obtain a b rest where it: "it = a # b # rest"
    using assms by (cases it; cases "tl it") (auto simp: go_back_def)
  obtain u j where b: "b = (u, j)" by (cases b)
  have "rev (map snd rest) @ [j, snd a] < rev (map snd rest) @ [Suc j]"
    unfolding less_append_same by simp
  then show ?thesis by (simp add: it b go_back_def counters_def)
qed

lemma counters_add_next_branch: "counters it < counters (add_next_branch it)"
proof -
  have "counters it @ [] < counters it @ [0]"
    unfolding less_append_same by simp
  then show ?thesis by (simp add: add_next_branch_def counters_def)
qed

lemma walk_from_counters:
  "e \<in> set (walk_from descend it) \<Longrightarrow> counters it \<le> counters e"
proof (induction descend it rule: walk_from.induct)
  case (1 descend it)
  show ?case
  proof (cases "it = []")
    case True
    then show ?thesis using "1.prems" by (simp add: walk_from.simps)
  next
    case ne: False
    show ?thesis
    proof (cases "first_visit it \<and> (is_leaf (cur_node it) \<or> \<not> descend it)")
      case True
      then have "e = it \<or> e \<in> set (walk_from descend (go_back it))"
        using "1.prems" ne by (subst (asm) walk_from.simps) auto
      then show ?thesis
      proof
        assume "e = it" then show ?thesis by simp
      next
        assume e: "e \<in> set (walk_from descend (go_back it))"
        then have g: "go_back it \<noteq> []" by (auto simp: walk_from.simps)
        have "counters (go_back it) \<le> counters e"
          using "1.IH"(1) [OF ne True e] .
        then show ?thesis using counters_go_back [OF g] by simp
      qed
    next
      case False
      show ?thesis
      proof (cases "has_unvisited_branches it")
        case True
        then have "e = it \<or> e \<in> set (walk_from descend (add_next_branch it))"
          using "1.prems" ne False by (subst (asm) walk_from.simps) (auto split: if_splits)
        then show ?thesis
        proof
          assume "e = it" then show ?thesis by simp
        next
          assume e: "e \<in> set (walk_from descend (add_next_branch it))"
          have "counters (add_next_branch it) \<le> counters e"
            using "1.IH"(2) [OF ne False True e] .
          then show ?thesis using counters_add_next_branch [of it] by simp
        qed
      next
        case nb: False
        then have "e = it \<or> e \<in> set (walk_from descend (go_back it))"
          using "1.prems" ne False by (subst (asm) walk_from.simps) (auto split: if_splits)
        then show ?thesis
        proof
          assume "e = it" then show ?thesis by simp
        next
          assume e: "e \<in> set (walk_from descend (go_back it))"
          then have g: "go_back it \<noteq> []" by (auto simp: walk_from.simps)
          have "counters (go_back it) \<le> counters e"
            using "1.IH"(3) [OF ne False nb e] .
          then show ?thesis using counters_go_back [OF g] by simp
        qed
      qed
    qed
  qed
qed


lemma counters_node_id: "e \<noteq> [] \<Longrightarrow> counters e = node_id_of e @ [snd (hd e)]"
  by (cases e) (simp_all add: counters_def node_id_of_def)

text \<open>
  Claim C4, as amended. When the caller signals "do not descend" at the pre-visit event of
  a node, the walker goes back at once: the pre-visit event is followed directly by what
  the walk yields from the position where the node's frame is popped and its parent's
  counter advanced (the next sibling, or the parent's post-visit). No later event lies at
  the node or below it: no descendant is visited, and no post-visit event of the node is
  emitted.
\<close>

theorem walk_pruned_no_post_visit:
  assumes "it \<noteq> []" and "first_visit it" and "\<not> descend it"
  shows "walk_from descend it = it # walk_from descend (go_back it) \<and>
    (\<forall>e \<in> set (walk_from descend (go_back it)). \<not> prefix (node_id_of it) (node_id_of e))"
proof
  show "walk_from descend it = it # walk_from descend (go_back it)"
    using assms by (subst walk_from.simps) simp
next
  show "\<forall>e \<in> set (walk_from descend (go_back it)). \<not> prefix (node_id_of it) (node_id_of e)"
  proof
    fix e assume e: "e \<in> set (walk_from descend (go_back it))"
    then have g: "go_back it \<noteq> []" by (auto simp: walk_from.simps)
    then obtain a u j rest where it: "it = a # (u, j) # rest"
      by (cases it; cases "tl it") (auto simp: go_back_def)
    have le: "counters (go_back it) \<le> counters e"
      using e by (rule walk_from_counters)
    have cg: "counters (go_back it) = rev (map snd rest) @ [Suc j]"
      by (simp add: it go_back_def counters_def)
    have ne: "e \<noteq> []"
    proof
      assume "e = []"
      then have "rev (map snd rest) @ [Suc j] \<le> []"
        using le cg by (simp add: counters_def)
      then show False by simp
    qed
    show "\<not> prefix (node_id_of it) (node_id_of e)"
    proof
      assume "prefix (node_id_of it) (node_id_of e)"
      then obtain ws where "node_id_of e = node_id_of it @ ws" by (auto simp: prefix_def)
      then have "counters e = rev (map snd rest) @ (j # ws @ [snd (hd e)])"
        using counters_node_id [OF ne] by (simp add: it node_id_of_def)
      then have "[Suc j] \<le> j # ws @ [snd (hd e)]"
        using le cg by (simp only: le_append_same)
      then show False by simp
    qed
  qed
qed

theorem walk_pruned_no_post_visit_witness:
  "[(ex_x, 0), (ex_tree, 0)] \<noteq> [] \<and> first_visit [(ex_x, 0), (ex_tree, 0)]
   \<and> \<not> not_into_x [(ex_x, 0), (ex_tree, 0)]
   \<and> walk_from not_into_x [(ex_x, 0), (ex_tree, 0)]
       = [(ex_x, 0), (ex_tree, 0)]
         # walk_from not_into_x [(ex_tree, 1)]"
proof -
  have h: "[(ex_x, 0), (ex_tree, 0)] \<noteq> []" "first_visit [(ex_x, 0), (ex_tree, 0)]"
    "\<not> not_into_x [(ex_x, 0), (ex_tree, 0)]"
    by (simp_all add: first_visit_def cur_node_def ex_x_def not_into_x_def)
  have g: "go_back [(ex_x, 0), (ex_tree, 0)] = [(ex_tree, 1)]"
    by (simp add: go_back_def)
  show ?thesis
    using walk_pruned_no_post_visit [of "[(ex_x, 0), (ex_tree, 0)]" not_into_x, OF h, THEN conjunct1] h
    unfolding g by simp
qed

text \<open>
  The claim as stated fails: pruning at \<open>x\<close> in the example tree, the walk yields the
  pre-visit of \<open>x\<close> and then goes on to \<open>c\<close>; there is no post-visit event of \<open>x\<close>.
\<close>

theorem walk_pruned_post_visit_counterexample:
  "map (\<lambda>it. (tname (cur_node it), first_visit it))
     (walk not_into_x ex_tree)
   = [(''r'', True), (''x'', True), (''c'', True), (''r'', False)]
   \<and> filter (\<lambda>it. tname (cur_node it) = ''x'' \<and> \<not> first_visit it)
     (walk not_into_x ex_tree) = []"
  by code_simp

section \<open>Sizes and ultrametric conversion\<close>

text \<open>
  \<^verbatim>\<open>get_size(nodes)\<close>: the largest \<^verbatim>\<open>size[0]\<close> (starting from 0) and the sum of the
  \<^verbatim>\<open>size[1]\<close> of the given nodes.
\<close>

definition get_size :: "tree list \<Rightarrow> rat \<times> nat" where
  "get_size nodes =
     fold (\<lambda>n (sumdists, nleaves). (max sumdists (fst (tsize n)), nleaves + snd (tsize n)))
       nodes (0, 0)"

text \<open>
  \<^verbatim>\<open>update_size(node)\<close>. Whether the node has a parent (\<^verbatim>\<open>node.up\<close>) is not part of the
  tree value, so it is an argument: False for the root.
\<close>

definition update_size :: "bool \<Rightarrow> tree \<Rightarrow> tree" where
  "update_size has_up t =
     (case get_size (kids t) of
        (sumdists, nleaves) \<Rightarrow>
          (let dx = (case tprops t ''dist'' of
                       None \<Rightarrow> (if has_up then 1 else 0)
                     | Some d \<Rightarrow> d) + sumdists
           in Node (tname t) (tprops t) (dx, max 1 nleaves) (kids t)))"

fun update_sizes_all :: "bool \<Rightarrow> tree \<Rightarrow> tree" where
  "update_sizes_all has_up (Node nm ps sz ks) =
     update_size has_up (Node nm ps sz (map (update_sizes_all True) ks))"

text \<open>\<^verbatim>\<open>any(node.dist is None for node in tree.traverse())\<close>\<close>

fun any_dist_missing :: "tree \<Rightarrow> bool" where
  "any_dist_missing (Node nm ps sz ks) =
     (ps ''dist'' = None \<or> list_ex any_dist_missing ks)"

text \<open>\<^verbatim>\<open>for node in tree.traverse(): node.dist = 1 if node.up else 0\<close>\<close>

fun reset_dists :: "bool \<Rightarrow> tree \<Rightarrow> tree" where
  "reset_dists has_up (Node nm ps sz ks) =
     Node nm (ps(''dist'' \<mapsto> (if has_up then 1 else 0))) sz (map (reset_dists True) ks)"

text \<open>Results of the passes that can raise.\<close>

datatype arith_error = TypeError | ZeroDivisionError

fun map_result :: "('a \<Rightarrow> arith_error + 'b) \<Rightarrow> 'a list \<Rightarrow> arith_error + 'b list" where
  "map_result f [] = Inr []"
| "map_result f (x # xs) =
     (case f x of
        Inl e \<Rightarrow> Inl e
      | Inr y \<Rightarrow> (case map_result f xs of Inl e \<Rightarrow> Inl e | Inr ys \<Rightarrow> Inr (y # ys)))"

lemma map_result_cong [fundef_cong]:
  "xs = ys \<Longrightarrow> (\<And>x. x \<in> set ys \<Longrightarrow> f x = g x) \<Longrightarrow> map_result f xs = map_result g ys"
  by (induction ys arbitrary: xs) (auto split: sum.splits)

text \<open>
  The last loop of \<^verbatim>\<open>to_ultrametric\<close>. \<^verbatim>\<open>tree.traverse()\<close> reaches a node after all
  its ancestors, so when a node is rescaled the \<^verbatim>\<open>dist\<close> of its ancestors are the new
  ones: \<open>d\<close> is their sum. \<^verbatim>\<open>node.size\<close> is the cached one. Comparing a missing
  \<^verbatim>\<open>dist\<close> with 0 raises TypeError, dividing by a zero size raises ZeroDivisionError.
\<close>

fun rescale :: "rat \<Rightarrow> rat \<Rightarrow> tree \<Rightarrow> arith_error + tree" where
  "rescale dist_full d (Node nm ps sz ks) =
     (case ps ''dist'' of
        None \<Rightarrow> Inl TypeError
      | Some nd \<Rightarrow>
          if nd > 0 then
            (if fst sz = 0 then Inl ZeroDivisionError
             else
               (let nd' = nd * ((dist_full - d) / fst sz) in
                case map_result (rescale dist_full (d + nd')) ks of
                  Inl e \<Rightarrow> Inl e
                | Inr ks' \<Rightarrow> Inr (Node nm (ps(''dist'' \<mapsto> nd')) sz ks')))
          else
            (case map_result (rescale dist_full (d + nd)) ks of
               Inl e \<Rightarrow> Inl e
             | Inr ks' \<Rightarrow> Inr (Node nm ps sz ks')))"

text \<open>\<^verbatim>\<open>to_ultrametric(tree, topological)\<close> for \<^verbatim>\<open>tree\<close> the root of its tree.\<close>

definition to_ultrametric :: "bool \<Rightarrow> tree \<Rightarrow> arith_error + tree" where
  "to_ultrametric topological tree =
     (let t0 = Node (tname tree)
                 ((tprops tree)(''dist'' \<mapsto> (case tprops tree ''dist'' of None \<Rightarrow> 0 | Some d \<Rightarrow> d)))
                 (tsize tree) (kids tree);
          t1 = update_sizes_all False t0;
          dist_full = fst (tsize t1)
      in if topological \<or> dist_full \<le> 0 \<or> any_dist_missing t1 then
           (let t2 = update_sizes_all False (reset_dists False t1)
            in rescale (if dist_full > 0 then dist_full else fst (tsize t2)) 0 t2)
         else rescale dist_full 0 t1)"

text \<open>
  For every leaf, in order, the sum of \<^verbatim>\<open>dist\<close> over the nodes on its path from the root
  (a missing \<^verbatim>\<open>dist\<close> counts as 0).
\<close>

fun leaf_path_sums :: "rat \<Rightarrow> tree \<Rightarrow> rat list" where
  "leaf_path_sums acc (Node nm ps sz ks) =
     (let acc' = acc + (case ps ''dist'' of None \<Rightarrow> 0 | Some d \<Rightarrow> d)
      in if ks = [] then [acc'] else concat (map (leaf_path_sums acc') ks))"

text \<open>The tree \<^verbatim>\<open>(a:0,b:1);\<close>: a leaf on a branch of length zero beside a leaf at distance 1.\<close>

definition zero_branch_tree :: tree where
  "zero_branch_tree = Node ''r'' Map.empty (0, 0) [ex_leaf ''a'' 0, ex_leaf ''b'' 1]"


subsection \<open>A zero-length leaf branch\<close>

text \<open>
  Claim C3 says that after \<open>to_ultrametric\<close> every leaf has the same summed \<open>dist\<close> on
  its path from the root. The loop rescales only the nodes with \<open>dist > 0\<close>, so a leaf
  whose branch has length 0 stays where it is: on \<^verbatim>\<open>(a:0,b:1);\<close> the call returns with
  leaf \<open>a\<close> at distance 0 and leaf \<open>b\<close> at distance 1 from the root.
\<close>

theorem to_ultrametric_zero_branch:
  "\<exists>t. to_ultrametric False zero_branch_tree = Inr t \<and> leaf_path_sums 0 t = [0, 1]"
  by (simp add: to_ultrametric_def zero_branch_tree_def ex_leaf_def update_size_def
      get_size_def Let_def)

section \<open>The node interface\<close>

text \<open>
  The node type itself (\<^verbatim>\<open>Tree\<close>) is not part of \<^verbatim>\<open>operations.pyx\<close>. What the
  operations call on it is modelled here from the interface that the specification
  describes (sections 3, 4.3 and 6).
\<close>

text \<open>Modelled from the spec: \<^verbatim>\<open>parent.add_child(child)\<close>, "appends node to parent's child
  sequence, sets node's parent reference".\<close>

definition add_child :: "store \<Rightarrow> addr \<Rightarrow> addr \<Rightarrow> store" where
  "add_child s parent child =
     (let s1 = s(parent := (s parent)\<lparr>children := children (s parent) @ [child]\<rparr>)
      in s1(child := (s1 child)\<lparr>up := Some parent\<rparr>))"

text \<open>Modelled from the spec: \<^verbatim>\<open>parent.add_children(nodes)\<close>, \<^verbatim>\<open>add_child\<close> for each
  node in turn.\<close>

definition add_children :: "store \<Rightarrow> addr \<Rightarrow> addr list \<Rightarrow> store" where
  "add_children s parent nodes = fold (\<lambda>c s'. add_child s' parent c) nodes s"

text \<open>Modelled from the spec: \<^verbatim>\<open>parent.pop_child(i)\<close>, "detaching the indexed child":
  the child leaves the child sequence and loses its parent reference; IndexError when
  there is no such child.\<close>

definition pop_child :: "store \<Rightarrow> addr \<Rightarrow> nat \<Rightarrow> (addr \<times> store) result" where
  "pop_child s parent i =
     (if i < length (children (s parent)) then
        (let child = children (s parent) ! i;
             s1 = s(parent := (s parent)\<lparr>children := pop_at (children (s parent)) i\<rparr>)
         in Inr (child, s1(child := (s1 child)\<lparr>up := None\<rparr>)))
      else Inl (IndexError, s))"


text \<open>Modelled from the spec: \<^verbatim>\<open>parent.remove_children()\<close>, "leaving the current root
  childless": every child is detached; the children are returned.\<close>

definition remove_children :: "store \<Rightarrow> addr \<Rightarrow> addr list \<times> store" where
  "remove_children s parent =
     (children (s parent),
      fold (\<lambda>c s'. s'(c := (s' c)\<lparr>up := None\<rparr>)) (children (s parent))
        (s(parent := (s parent)\<lparr>children := []\<rparr>)))"

text \<open>Modelled from the spec: \<^verbatim>\<open>node.root\<close>, the node reached by following the parent
  references. On a store whose parent references form a cycle it does not return.\<close>

partial_function (option) root_of :: "store \<Rightarrow> addr \<Rightarrow> addr option" where
  "root_of s n = (case up (s n) of None \<Rightarrow> Some n | Some u \<Rightarrow> root_of s u)"

text \<open>Modelled from the spec: \<^verbatim>\<open>node.lineage()\<close>, "ancestor/lineage sequence (self to
  root)".\<close>

partial_function (option) lineage :: "store \<Rightarrow> addr \<Rightarrow> addr list option" where
  "lineage s n =
     (case up (s n) of
        None \<Rightarrow> Some [n]
      | Some u \<Rightarrow> Option.bind (lineage s u) (\<lambda>l. Some (n # l)))"

text \<open>Modelled from the spec: \<^verbatim>\<open>node.id\<close>, the "structural path-id": the child indices
  from the root down to the node; ValueError when a node on the way is not among the
  children of its parent.\<close>

partial_function (option) node_id :: "store \<Rightarrow> addr \<Rightarrow> (error + nat list) option" where
  "node_id s n =
     (case up (s n) of
        None \<Rightarrow> Some (Inr [])
      | Some u \<Rightarrow>
          (case index_of (children (s u)) n of
             None \<Rightarrow> Some (Inl ValueError)
           | Some i \<Rightarrow>
               Option.bind (node_id s u)
                 (\<lambda>r. Some (case r of Inl e \<Rightarrow> Inl e | Inr ps \<Rightarrow> Inr (ps @ [i])))))"

declare root_of.simps [code] lineage.simps [code] node_id.simps [code]

text \<open>Assignment to and removal of an entry of \<^verbatim>\<open>node.props\<close>.\<close>

definition set_prop :: "store \<Rightarrow> addr \<Rightarrow> string \<Rightarrow> rat \<Rightarrow> store" where
  "set_prop s n pname v = s(n := (s n)\<lparr>props := (props (s n))(pname \<mapsto> v)\<rparr>)"

definition del_prop :: "store \<Rightarrow> addr \<Rightarrow> string \<Rightarrow> store" where
  "del_prop s n pname = s(n := (s n)\<lparr>props := (props (s n))(pname := None)\<rparr>)"

section \<open>Structural edits\<close>

subsection \<open>Double precision\<close>

text \<open>
  Python's \<^verbatim>\<open>float\<close> is the IEEE 754 binary64 format. A finite double is denoted here by
  the rational number it stands for, \<open>m * 2 ^ e\<close> with \<open>\<bar>m\<bar> < 2 ^ 53\<close> and
  \<open>- 1074 \<le> e\<close>; the result of an arithmetic operation is the exact result rounded to
  the nearest double, ties to the even one. The places of a double \<open>x\<close> end at the
  exponent \<open>\<lfloor>log\<^sub>2 \<bar>x\<bar>\<rfloor> - 52\<close>, and never below \<open>- 1074\<close> (the subnormal range).
  Infinities, NaN and the sign of zero are not represented: the model is of operations
  whose exact result lies in the range of the finite doubles.
\<close>

definition round_half_even :: "rat \<Rightarrow> int" where
  "round_half_even x =
     (if x - of_int \<lfloor>x\<rfloor> < 1 / 2 then \<lfloor>x\<rfloor>
      else if 1 / 2 < x - of_int \<lfloor>x\<rfloor> then \<lfloor>x\<rfloor> + 1
      else if even \<lfloor>x\<rfloor> then \<lfloor>x\<rfloor> else \<lfloor>x\<rfloor> + 1)"

text \<open>\<open>\<lfloor>log\<^sub>2 \<bar>x\<bar>\<rfloor>\<close> for \<open>x \<noteq> 0\<close>, from the bit lengths of numerator and denominator.\<close>

definition floor_log2 :: "rat \<Rightarrow> int" where
  "floor_log2 x =
     (case quotient_of \<bar>x\<bar> of
        (n, d) \<Rightarrow>
          (let k = bitlen n - bitlen d
           in if 2 powi k \<le> \<bar>x\<bar> then k else k - 1))"

definition last_place :: "rat \<Rightarrow> int" where
  "last_place x = max (- 1074) (floor_log2 x - 52)"

definition to_double :: "rat \<Rightarrow> rat" where
  "to_double x =
     of_int (round_half_even (x / 2 powi last_place x)) * 2 powi last_place x"

text \<open>\<^verbatim>\<open>a / b\<close> and \<^verbatim>\<open>a + b\<close> on floats (\<open>b \<noteq> 0\<close>).\<close>

definition float_div :: "rat \<Rightarrow> rat \<Rightarrow> rat" where
  "float_div a b = to_double (a / b)"

definition float_add :: "rat \<Rightarrow> rat \<Rightarrow> rat" where
  "float_add a b = to_double (a + b)"

text \<open>The smallest positive double, \<open>2 ^ - 1074\<close> (\<^verbatim>\<open>5e-324\<close>).\<close>

definition tiny :: rat where
  "tiny = 1 / 2 ^ 1074"

text \<open>The finite doubles: the values that round to themselves, below \<open>2 ^ 1024\<close>.\<close>

definition finite_double :: "rat \<Rightarrow> bool" where
  "finite_double x \<longleftrightarrow> to_double x = x \<and> \<bar>x\<bar> < 2 ^ 1024"



definition swap_prop :: "addr \<Rightarrow> addr \<Rightarrow> string \<Rightarrow> store \<Rightarrow> store" where
  "swap_prop n1 n2 pname s =
     (let p1 = props (s n1) pname;
          s1 = del_prop s n1 pname;
          p2 = props (s1 n2) pname;
          s2 = del_prop s1 n2 pname;
          s3 = (case p1 of None \<Rightarrow> s2 | Some v \<Rightarrow> set_prop s2 n2 pname v)
      in (case p2 of None \<Rightarrow> s3 | Some v \<Rightarrow> set_prop s3 n1 pname v))"

definition swap_props :: "store \<Rightarrow> addr \<Rightarrow> addr \<Rightarrow> string list \<Rightarrow> store" where
  "swap_props s n1 n2 pnames = fold (swap_prop n1 n2) pnames s"

definition rehang :: "store \<Rightarrow> addr \<Rightarrow> nat \<Rightarrow> string list \<Rightarrow> (addr \<times> store) result" where
  "rehang s rt child_pos bprops =
     (case pop_child s rt child_pos of
        Inl e \<Rightarrow> Inl e
      | Inr (child, s1) \<Rightarrow>
          (let s2 = add_child s1 child rt
           in Inr (child, swap_props s2 rt child ([''dist'', ''support''] @ bprops))))"

text \<open>\<^verbatim>\<open>for prop in ['support'] + bprops: if prop in node.props: intermediate.props[prop] = node.props[prop]\<close>\<close>

definition copy_prop :: "addr \<Rightarrow> addr \<Rightarrow> string \<Rightarrow> store \<Rightarrow> store" where
  "copy_prop node intermediate pname s =
     (case props (s node) pname of
        None \<Rightarrow> s
      | Some v \<Rightarrow> set_prop s intermediate pname v)"

definition insert_intermediate :: "store \<Rightarrow> addr \<Rightarrow> addr \<Rightarrow> string list \<Rightarrow> store result" where
  "insert_intermediate s node intermediate bprops =
     (case up (s node) of
        None \<Rightarrow> Inl (AttributeError, s)
      | Some u \<Rightarrow>
          (case index_of (children (s u)) node of
             None \<Rightarrow> Inl (ValueError, s)
           | Some pos_in_parent \<Rightarrow>
               (let s1 = s(u := (s u)\<lparr>children := pop_at (children (s u)) pos_in_parent\<rparr>);
                    s2 = add_child s1 intermediate node;
                    s3 = (case props (s2 node) ''dist'' of
                            None \<Rightarrow> s2
                          | Some d \<Rightarrow> set_prop (set_prop s2 node ''dist'' (float_div d 2))
                                        intermediate ''dist'' (float_div d 2));
                    s4 = fold (copy_prop node intermediate) (''support'' # bprops) s3;
                    s5 = s4(u := (s4 u)\<lparr>children :=
                              insert_at (children (s4 u)) pos_in_parent intermediate\<rparr>)
                in Inr (s5(intermediate := (s5 intermediate)\<lparr>up := Some u\<rparr>)))))"

definition join_branch :: "store \<Rightarrow> addr \<Rightarrow> store result" where
  "join_branch s node =
     (if length (children (s node)) \<noteq> 1
        then Inl (AssertionError ''cannot join branch with multiple children'', s)
      else
        (let child = children (s node) ! 0 in
         if (case (props (s node) ''support'', props (s child) ''support'') of
               (Some a, Some b) \<Rightarrow> a \<noteq> b
             | _ \<Rightarrow> False)
           then Inl (AssertionError ''cannot join branches with different support'', s)
         else
           (let s1 = (case props (s node) ''dist'' of
                        None \<Rightarrow> s
                      | Some d \<Rightarrow>
                          set_prop s child ''dist''
                            (float_add (case props (s child) ''dist'' of None \<Rightarrow> 0 | Some c \<Rightarrow> c) d))
            in case up (s1 node) of
                 None \<Rightarrow> Inl (AttributeError, s1)
               | Some u \<Rightarrow>
                   (case index_of (children (s1 u)) node of
                      None \<Rightarrow> Inl (ValueError, s1)
                    | Some pos_in_parent \<Rightarrow>
                        (let s2 = s1(u := (s1 u)\<lparr>children :=
                                   pop_at (children (s1 u)) pos_in_parent\<rparr>);
                             s3 = s2(u := (s2 u)\<lparr>children :=
                                   insert_at (children (s2 u)) pos_in_parent child\<rparr>)
                         in Inr (s3(child := (s3 child)\<lparr>up := Some u\<rparr>)))))))"


section \<open>Rerooting\<close>

text \<open>
  \<^verbatim>\<open>assert_root_consistency(root, bprops)\<close>: the assertion that fails first, if any.
  The message of the last assertion is given without the two \<open>support\<close> values that the
  source appends to it.
\<close>

definition assert_root_consistency :: "store \<Rightarrow> addr \<Rightarrow> string list \<Rightarrow> error option" where
  "assert_root_consistency s rt bprops =
     (if props (s rt) ''dist'' \<noteq> None \<and> props (s rt) ''dist'' \<noteq> Some 0
        then Some (AssertionError ''root has a distance'')
      else
        (case find (\<lambda>pname. props (s rt) pname \<noteq> None) (''support'' # bprops) of
           Some pname \<Rightarrow> Some (AssertionError (''root has branch property: '' @ pname))
         | None \<Rightarrow>
             (case children (s rt) of
                [ch1, ch2] \<Rightarrow>
                  (if props (s ch1) ''support'' = props (s ch2) ''support'' then None
                   else Some (AssertionError ''inconsistent support at the root''))
              | _ \<Rightarrow> None)))"

text \<open>The loop \<^verbatim>\<open>for child_pos in positions: root = rehang(root, child_pos, bprops)\<close>.\<close>

fun rehang_all :: "store \<Rightarrow> addr \<Rightarrow> nat list \<Rightarrow> string list \<Rightarrow> store result" where
  "rehang_all s rt [] bprops = Inr s"
| "rehang_all s rt (child_pos # positions) bprops =
     (case rehang s rt child_pos bprops of
        Inl e \<Rightarrow> Inl e
      | Inr (child, s') \<Rightarrow> rehang_all s' child positions bprops)"

text \<open>
  \<^verbatim>\<open>set_outgroup(node, bprops)\<close>. The object that \<^verbatim>\<open>old_root.__class__()\<close> creates is
  placed at the address \<open>replacement\<close>, an argument. \<open>None\<close> is a call that does not
  return (the parent references above \<open>node\<close> form a cycle).
\<close>

definition set_outgroup :: "store \<Rightarrow> addr \<Rightarrow> string list \<Rightarrow> addr \<Rightarrow> store result option" where
  "set_outgroup s node bprops replacement =
     (case root_of s node of
        None \<Rightarrow> None
      | Some old_root \<Rightarrow>
          (case node_id s node of
             None \<Rightarrow> None
           | Some (Inl e) \<Rightarrow> Some (Inl (e, s))
           | Some (Inr positions) \<Rightarrow>
               (case assert_root_consistency s old_root bprops of
                  Some e \<Rightarrow> Some (Inl (e, s))
                | None \<Rightarrow>
                    if node = old_root
                      then Some (Inl (AssertionError
                             ''cannot set the absolute tree root as outgroup'', s))
                    else
                      (let s1 = s(replacement := new_node);
                           (cs, s2) = remove_children s1 old_root;
                           s3 = add_children s2 replacement cs
                       in case insert_intermediate s3 node old_root bprops of
                            Inl e \<Rightarrow> Some (Inl e)
                          | Inr s4 \<Rightarrow>
                              (case rehang_all s4 replacement positions bprops of
                                 Inl e \<Rightarrow> Some (Inl e)
                               | Inr s5 \<Rightarrow>
                                   if length (children (s5 replacement)) = 1
                                     then Some (join_branch s5 replacement)
                                   else Some (Inr s5))))))"

section \<open>Common ancestor\<close>

text \<open>
  The loop of \<^verbatim>\<open>common_ancestor\<close>; \<open>cur\<close> (\<^verbatim>\<open>curr\<close>) is \<open>None\<close> once a step has found no common
  node, and \<^verbatim>\<open>curr.lineage()\<close> on it raises AttributeError.
\<close>

fun common_ancestor_loop :: "store \<Rightarrow> addr option \<Rightarrow> addr list \<Rightarrow> addr option result option" where
  "common_ancestor_loop s cur [] = Some (Inr cur)"
| "common_ancestor_loop s cur (node # nodes) =
     (case lineage s node of
        None \<Rightarrow> None
      | Some lin_node \<Rightarrow>
          (case cur of
             None \<Rightarrow> Some (Inl (AttributeError, s))
           | Some c \<Rightarrow>
               (case lineage s c of
                  None \<Rightarrow> None
                | Some lin \<Rightarrow>
                    common_ancestor_loop s (find (\<lambda>n. n \<in> set lin_node) lin) nodes)))"

definition common_ancestor :: "store \<Rightarrow> addr list \<Rightarrow> addr option result option" where
  "common_ancestor s nodes =
     (case nodes of
        [] \<Rightarrow> Some (Inr None)
      | n # rest \<Rightarrow> common_ancestor_loop s (Some n) rest)"


subsection \<open>Nodes without a common ancestor\<close>

lemma lineage_root: "up (s n) = None \<Longrightarrow> lineage s n = Some [n]"
  by (subst lineage.simps) simp

lemma lineage_up: "up (s n) = Some u \<Longrightarrow> lineage s n = Option.bind (lineage s u) (\<lambda>l. Some (n # l))"
  by (subst lineage.simps) simp

text \<open>
  Claim C8 says that \<open>common_ancestor\<close> returns the "none" result when the nodes have no
  common ancestor. With two unrelated nodes it does, and so it does for the empty input;
  with a third node after two unrelated ones the loop goes on with \<open>None\<close> as the current
  node and the call raises AttributeError. The addresses 5, 6 and 7 of the example store
  hold three nodes without parent.
\<close>

theorem common_ancestor_three_unrelated:
  "common_ancestor ex_store [5, 6, 7] = Some (Inl (AttributeError, ex_store))
   \<and> common_ancestor ex_store [5, 6] = Some (Inr None)
   \<and> common_ancestor ex_store [] = Some (Inr None)
   \<and> common_ancestor ex_store [3, 4] = Some (Inr (Some 1))"
proof -
  have u: "up (ex_store 5) = None" "up (ex_store 6) = None" "up (ex_store 7) = None"
    "up (ex_store 0) = None" "up (ex_store 1) = Some 0" "up (ex_store 3) = Some 1"
    "up (ex_store 4) = Some 1"
    by (simp_all add: ex_store_def new_node_def)
  have l0: "lineage ex_store 0 = Some [0]"
    by (rule lineage_root) (rule u)
  have l1: "lineage ex_store 1 = Some [1, 0]"
    unfolding lineage_up [of ex_store 1 0, OF u(5)] l0 by simp
  have l: "lineage ex_store 5 = Some [5]" "lineage ex_store 6 = Some [6]"
    "lineage ex_store 7 = Some [7]" "lineage ex_store 3 = Some [3, 1, 0]"
    "lineage ex_store 4 = Some [4, 1, 0]"
    unfolding lineage_up [of ex_store 3 1, OF u(6)] lineage_up [of ex_store 4 1, OF u(7)] l1
    by (simp_all add: lineage_root u)
  show ?thesis
    by (simp add: common_ancestor_def l)
qed


section \<open>Rounding to double precision\<close>

lemma int_bounds_powi:
  assumes "0 < (n::int)"
  shows "(2::rat) powi (bitlen n - 1) \<le> of_int n" and "of_int n < (2::rat) powi bitlen n"
proof -
  have b: "1 \<le> bitlen n" using assms by (auto simp: bitlen_alt_def)
  have "2 ^ nat (bitlen n - 1) \<le> n" and "n < 2 ^ nat (bitlen n)"
    using bitlen_bounds [OF assms] by simp_all
  then have "(of_int (2 ^ nat (bitlen n - 1)) :: rat) \<le> of_int n"
    and "(of_int n :: rat) < of_int (2 ^ nat (bitlen n))"
    by (simp_all only: of_int_le_iff of_int_less_iff)
  then show "(2::rat) powi (bitlen n - 1) \<le> of_int n" and "of_int n < (2::rat) powi bitlen n"
    using b by (simp_all add: power_int_def)
qed

lemma floor_log2_bounds:
  assumes "x \<noteq> 0"
  shows "2 powi floor_log2 x \<le> \<bar>x\<bar>" and "\<bar>x\<bar> < 2 powi (floor_log2 x + 1)"
proof -
  obtain n dd where q: "quotient_of \<bar>x\<bar> = (n, dd)" by fastforce
  have dd: "0 < dd" using quotient_of_denom_pos [OF q] .
  have x: "\<bar>x\<bar> = of_int n / of_int dd" using quotient_of_div [OF q] .
  have "0 < \<bar>x\<bar>" using assms by simp
  then have n: "0 < n" using dd by (simp add: x zero_less_divide_iff)
  define k where "k = bitlen n - bitlen dd"
  have dr: "(0::rat) < of_int dd" using dd by simp
  have up: "\<bar>x\<bar> < 2 powi (k + 1)"
  proof -
    have "of_int n < (2::rat) powi bitlen n" using int_bounds_powi(2) [OF n] .
    moreover have "(2::rat) powi (bitlen dd - 1) \<le> of_int dd" using int_bounds_powi(1) [OF dd] .
    ultimately have "of_int n * (2::rat) powi (bitlen dd - 1) < 2 powi bitlen n * of_int dd"
      using n dd by (intro mult_less_le_imp_less) simp_all
    then have "of_int n / of_int dd < (2::rat) powi bitlen n / 2 powi (bitlen dd - 1)"
      using dr by (simp add: divide_simps mult.commute)
    also have "(2::rat) powi bitlen n / 2 powi (bitlen dd - 1) = 2 powi (k + 1)"
      unfolding k_def by (simp add: power_int_diff [symmetric] algebra_simps)
    finally show ?thesis by (simp add: x)
  qed
  have lo: "2 powi (k - 1) < \<bar>x\<bar>"
  proof -
    have "of_int dd < (2::rat) powi bitlen dd" using int_bounds_powi(2) [OF dd] .
    moreover have "(2::rat) powi (bitlen n - 1) \<le> of_int n" using int_bounds_powi(1) [OF n] .
    ultimately have "(2::rat) powi (bitlen n - 1) * of_int dd < of_int n * 2 powi bitlen dd"
      using n dd by (intro mult_le_less_imp_less) simp_all
    then have "(2::rat) powi (bitlen n - 1) / 2 powi bitlen dd < of_int n / of_int dd"
      using dr by (simp add: divide_simps mult.commute)
    moreover have "(2::rat) powi (bitlen n - 1) / 2 powi bitlen dd = 2 powi (k - 1)"
      unfolding k_def by (simp add: power_int_diff [symmetric] algebra_simps)
    ultimately show ?thesis by (simp add: x)
  qed
  have f: "floor_log2 x = (if 2 powi k \<le> \<bar>x\<bar> then k else k - 1)"
    by (simp add: floor_log2_def q k_def Let_def)
  show "2 powi floor_log2 x \<le> \<bar>x\<bar>" using lo by (simp add: f)
  show "\<bar>x\<bar> < 2 powi (floor_log2 x + 1)" using up by (auto simp: f)
qed


lemma floor_log2_unique:
  assumes "2 powi k \<le> \<bar>x\<bar>" and "\<bar>x\<bar> < 2 powi (k + 1)"
  shows "floor_log2 x = k"
proof -
  have x: "x \<noteq> 0"
  proof
    assume "x = 0"
    then have "(2::rat) powi k \<le> 0" using assms(1) by simp
    moreover have "(0::rat) < 2 powi k" by simp
    ultimately show False by linarith
  qed
  define f where "f = floor_log2 x"
  have lo: "2 powi f \<le> \<bar>x\<bar>" and up: "\<bar>x\<bar> < 2 powi (f + 1)"
    unfolding f_def using floor_log2_bounds [OF x] by simp_all
  have "\<not> f < k"
  proof
    assume "f < k"
    then have "(2::rat) powi (f + 1) \<le> 2 powi k" by (intro power_int_increasing) simp_all
    then show False using up assms(1) by simp
  qed
  moreover have "\<not> k < f"
  proof
    assume "k < f"
    then have "(2::rat) powi (k + 1) \<le> 2 powi f" by (intro power_int_increasing) simp_all
    then show False using lo assms(2) by simp
  qed
  ultimately show ?thesis by (simp add: f_def)
qed

lemma powi_pred_half: "(2::rat) powi (k - 1) = 2 powi k / 2"
  by (simp add: power_int_diff)

lemma floor_log2_half:
  assumes "x \<noteq> 0"
  shows "floor_log2 (x / 2) = floor_log2 x - 1"
proof (rule floor_log2_unique)
  show "2 powi (floor_log2 x - 1) \<le> \<bar>x / 2\<bar>"
    using floor_log2_bounds(1) [OF assms] by (simp add: powi_pred_half)
  show "\<bar>x / 2\<bar> < 2 powi (floor_log2 x - 1 + 1)"
    using floor_log2_bounds(2) [OF assms] powi_pred_half [of "floor_log2 x + 1"] by simp
qed

lemma halving_exact:
  assumes d: "to_double d = d" and big: "2 powi (- 1021) \<le> \<bar>d\<bar>"
  shows "to_double (d / 2) = d / 2"
proof -
  have x: "d \<noteq> 0"
  proof
    assume "d = 0"
    then have "(2::rat) powi (- 1021) \<le> 0" using big by simp
    moreover have "(0::rat) < 2 powi (- 1021)" by (rule zero_less_power_int) simp
    ultimately show False by linarith
  qed
  define f where "f = floor_log2 d"
  have "\<not> f < - 1021"
  proof
    assume "f < - 1021"
    then have "(2::rat) powi (f + 1) \<le> 2 powi (- 1021)"
      by (intro power_int_increasing) simp_all
    then show False using floor_log2_bounds(2) [OF x] big by (simp add: f_def)
  qed
  then have f: "- 1021 \<le> f" by simp
  have lp: "last_place d = f - 52" using f by (simp add: last_place_def f_def)
  have lph: "last_place (d / 2) = f - 53"
    using f by (simp add: last_place_def floor_log2_half [OF x] f_def [symmetric])
  have e: "(2::rat) powi (f - 53) = 2 powi (f - 52) / 2"
    using powi_pred_half [of "f - 52"] by simp
  have "to_double (d / 2) = to_double d / 2"
    unfolding to_double_def lp lph e by simp
  then show ?thesis by (simp add: d)
qed


lemma floor_log2_powi: "floor_log2 (2 powi k) = k"
proof (rule floor_log2_unique)
  show "2 powi k \<le> \<bar>(2::rat) powi k\<bar>" by simp
  have "(2::rat) powi k < 2 powi (k + 1)" by (intro power_int_strict_increasing) simp_all
  then show "\<bar>(2::rat) powi k\<bar> < 2 powi (k + 1)" by simp
qed

lemma round_half_even_simps: "round_half_even 1 = 1" "round_half_even (1 / 2) = 0"
proof -
  have "\<lfloor>(1::rat) / 2\<rfloor> = 0" by (rule floor_unique) simp_all
  then show "round_half_even (1 / 2) = 0" by (simp add: round_half_even_def)
  show "round_half_even 1 = 1" by (simp add: round_half_even_def)
qed

lemma smallest_double:
  assumes k: "k = - 1074"
  shows "to_double (2 powi k) = 2 powi k" and "to_double (2 powi k / 2) = 0"
proof -
  have nz: "(2::rat) powi k \<noteq> 0" by simp
  have lp: "last_place (2 powi k) = k"
    unfolding last_place_def floor_log2_powi using k by simp
  have "floor_log2 (2 powi k / 2) = k - 1"
    using floor_log2_half [OF nz] by (simp add: floor_log2_powi)
  then have lph: "last_place (2 powi k / 2) = k"
    unfolding last_place_def using k by simp
  have "(2::rat) powi k / 2 powi k = 1" using nz by simp
  then show "to_double (2 powi k) = 2 powi k"
    unfolding to_double_def lp by (simp add: round_half_even_simps)
  have "(2::rat) powi k / 2 / 2 powi k = 1 / 2" using nz by simp
  then show "to_double (2 powi k / 2) = 0"
    unfolding to_double_def lph by (simp add: round_half_even_simps)
qed

lemma tiny_powi: "tiny = 2 powi (- 1074)"
  unfolding tiny_def by (simp only: power_int_minus power_int_numeral inverse_eq_divide)

lemma tiny_double: "to_double tiny = tiny" "float_div tiny 2 = 0" "0 < tiny"
proof -
  show "to_double tiny = tiny"
    unfolding tiny_powi by (rule smallest_double(1)) simp
  show "float_div tiny 2 = 0"
    unfolding tiny_powi float_div_def by (rule smallest_double(2)) simp
  show "0 < tiny" unfolding tiny_powi by (rule zero_less_power_int) simp
qed

lemma to_double_0: "to_double 0 = 0"
  by (simp add: to_double_def round_half_even_def)


lemma round_half_even_of_int: "round_half_even (of_int n) = n"
  by (simp add: round_half_even_def)

lemma to_double_powi:
  assumes "- 1074 \<le> k"
  shows "to_double (2 powi k) = 2 powi k"
proof -
  define e where "e = last_place (2 powi k)"
  have e: "e = max (- 1074) (k - 52)" by (simp add: e_def last_place_def floor_log2_powi)
  then have ek: "0 \<le> k - e" using assms by simp
  have "(2::rat) powi k / 2 powi e = 2 powi (k - e)" by (simp add: power_int_diff)
  also have "\<dots> = of_int (2 ^ nat (k - e))" using ek by (simp add: power_int_def)
  finally have q: "(2::rat) powi k / 2 powi e = of_int (2 ^ nat (k - e))" .
  have "to_double (2 powi k) = of_int (2 ^ nat (k - e)) * 2 powi e"
    unfolding to_double_def e_def [symmetric] q round_half_even_of_int ..
  also have "\<dots> = 2 powi (k - e) * 2 powi e" using ek by (simp add: power_int_def)
  also have "\<dots> = 2 powi k" by (simp add: power_int_diff)
  finally show ?thesis .
qed

lemma one_double: "to_double 1 = 1" "float_div 1 2 = 1 / 2"
proof -
  show d: "to_double 1 = 1" using to_double_powi [of 0] by simp
  have "2 powi (- 1021) \<le> \<bar>1::rat\<bar>"
    using power_int_increasing [of "- 1021" 0 "2::rat"] by simp
  then show "float_div 1 2 = 1 / 2"
    unfolding float_div_def using halving_exact [OF d] by simp
qed


section \<open>Inserting and splicing out an intermediate node\<close>

lemma pop_at_insert_at: "p \<le> length zs \<Longrightarrow> pop_at (insert_at zs p y) p = zs"
  by (simp add: pop_at_def insert_at_def)

lemma insert_at_pop_at:
  "p < length xs \<Longrightarrow> xs ! p = x \<Longrightarrow> insert_at (pop_at xs p) p x = xs"
  using id_take_nth_drop [of p xs] by (simp add: pop_at_def insert_at_def min_def)

lemma length_pop_at: "p < length xs \<Longrightarrow> length (pop_at xs p) = length xs - 1"
  by (simp add: pop_at_def)

lemma set_pop_at_subset: "set (pop_at xs p) \<subseteq> set xs"
  by (auto simp: pop_at_def dest: in_set_takeD in_set_dropD)

lemma index_of_insert_at:
  assumes "y \<notin> set zs" and "p \<le> length zs"
  shows "index_of (insert_at zs p y) y = Some p"
proof -
  have "y \<notin> set (take p zs)" using assms(1) by (auto dest: in_set_takeD)
  then show ?thesis
    using assms(2) by (simp add: index_of_Some_iff insert_at_def nth_append min_def)
qed

lemma fold_copy_prop_other:
  "a \<noteq> im \<Longrightarrow> fold (copy_prop nd im) ps s a = s a"
  by (induction ps arbitrary: s) (auto simp: copy_prop_def set_prop_def split: option.splits)

lemma fold_copy_prop_up_children:
  "up (fold (copy_prop nd im) ps s im) = up (s im)
   \<and> children (fold (copy_prop nd im) ps s im) = children (s im)"
  by (induction ps arbitrary: s) (auto simp: copy_prop_def set_prop_def split: option.splits)

lemma fold_copy_prop_props:
  assumes "nd \<noteq> im"
  shows "props (fold (copy_prop nd im) ps s im) k =
     (if k \<in> set ps \<and> props (s nd) k \<noteq> None then props (s nd) k else props (s im) k)"
  using assms
proof (induction ps arbitrary: s)
  case Nil
  show ?case by simp
next
  case (Cons a ps)
  have nd: "copy_prop nd im a s nd = s nd"
    using Cons.prems by (simp add: copy_prop_def set_prop_def split: option.splits)
  show ?case
    using Cons.IH [OF Cons.prems, of "copy_prop nd im a s"]
    by (auto simp: nd) (auto simp: copy_prop_def set_prop_def split: option.splits)
qed


lemma insert_intermediate_result:
  assumes u: "up (s nd) = Some u" and i: "index_of (children (s u)) nd = Some p"
    and ne: "im \<noteq> nd" "im \<noteq> u" "nd \<noteq> u"
  shows "\<exists>s'. insert_intermediate s nd im bprops = Inr s'
     \<and> up (s' im) = Some u
     \<and> children (s' im) = children (s im) @ [nd]
     \<and> (\<forall>k. props (s' im) k =
           (if k \<in> set (''support'' # bprops) \<and> k \<noteq> ''dist'' \<and> props (s nd) k \<noteq> None
              then props (s nd) k
            else if k = ''dist'' \<and> props (s nd) ''dist'' \<noteq> None
              then map_option (\<lambda>d. float_div d 2) (props (s nd) ''dist'')
            else props (s im) k))
     \<and> s' nd = (s nd)\<lparr>up := Some im,
           props := (case props (s nd) ''dist'' of None \<Rightarrow> props (s nd)
              | Some d \<Rightarrow> (props (s nd))(''dist'' \<mapsto> float_div d 2))\<rparr>
     \<and> s' u = (s u)\<lparr>children := (children (s u))[p := im]\<rparr>
     \<and> (\<forall>a. a \<noteq> im \<and> a \<noteq> nd \<and> a \<noteq> u \<longrightarrow> s' a = s a)"
proof -
  define cs where "cs = children (s u)"
  have pl: "p < length cs" and pn: "cs ! p = nd"
    using i by (simp_all add: index_of_Some_iff cs_def)
  define s1 where "s1 = s(u := (s u)\<lparr>children := pop_at cs p\<rparr>)"
  define s2 where "s2 = add_child s1 im nd"
  define s3 where "s3 = (case props (s2 nd) ''dist'' of None \<Rightarrow> s2
     | Some d \<Rightarrow> set_prop (set_prop s2 nd ''dist'' (float_div d 2)) im ''dist'' (float_div d 2))"
  define s4 where "s4 = fold (copy_prop nd im) (''support'' # bprops) s3"
  define s5 where "s5 = s4(u := (s4 u)\<lparr>children := insert_at (children (s4 u)) p im\<rparr>)"
  define s6 where "s6 = s5(im := (s5 im)\<lparr>up := Some u\<rparr>)"
  have res: "insert_intermediate s nd im bprops = Inr s6"
    unfolding insert_intermediate_def u i option.case Let_def s6_def s5_def s4_def s3_def
      s2_def s1_def cs_def ..
  have s2_nd: "s2 nd = (s nd)\<lparr>up := Some im\<rparr>"
    and s2_im: "s2 im = (s im)\<lparr>children := children (s im) @ [nd]\<rparr>"
    and s2_u: "s2 u = (s u)\<lparr>children := pop_at cs p\<rparr>"
    and s2_o: "\<And>a. a \<noteq> im \<Longrightarrow> a \<noteq> nd \<Longrightarrow> a \<noteq> u \<Longrightarrow> s2 a = s a"
    using ne by (simp_all add: s2_def s1_def add_child_def Let_def)
  have s3_nd: "s3 nd = (s nd)\<lparr>up := Some im,
           props := (case props (s nd) ''dist'' of None \<Rightarrow> props (s nd)
              | Some d \<Rightarrow> (props (s nd))(''dist'' \<mapsto> float_div d 2))\<rparr>"
    and s3_im: "s3 im = (s im)\<lparr>children := children (s im) @ [nd],
           props := (case props (s nd) ''dist'' of None \<Rightarrow> props (s im)
              | Some d \<Rightarrow> (props (s im))(''dist'' \<mapsto> float_div d 2))\<rparr>"
    and s3_u: "s3 u = (s u)\<lparr>children := pop_at cs p\<rparr>"
    and s3_o: "\<And>a. a \<noteq> im \<Longrightarrow> a \<noteq> nd \<Longrightarrow> a \<noteq> u \<Longrightarrow> s3 a = s a"
    using ne by (simp_all add: s3_def s2_nd s2_im s2_u s2_o set_prop_def split: option.splits)
  have s4_o: "\<And>a. a \<noteq> im \<Longrightarrow> s4 a = s3 a"
    unfolding s4_def by (rule fold_copy_prop_other)
  have s4_im_uc: "up (s4 im) = up (s3 im)" "children (s4 im) = children (s3 im)"
    unfolding s4_def using fold_copy_prop_up_children [of nd im "''support'' # bprops" s3]
    by simp_all
  have s4_im_p: "\<And>k. props (s4 im) k =
     (if k \<in> set (''support'' # bprops) \<and> props (s3 nd) k \<noteq> None then props (s3 nd) k
      else props (s3 im) k)"
    unfolding s4_def using fold_copy_prop_props [of nd im "''support'' # bprops" s3] ne(1)
    by simp
  have "up (s6 im) = Some u" by (simp add: s6_def)
  moreover have "children (s6 im) = children (s im) @ [nd]"
    using ne by (simp add: s6_def s5_def s4_im_uc s3_im)
  moreover have "\<forall>k. props (s6 im) k =
           (if k \<in> set (''support'' # bprops) \<and> k \<noteq> ''dist'' \<and> props (s nd) k \<noteq> None
              then props (s nd) k
            else if k = ''dist'' \<and> props (s nd) ''dist'' \<noteq> None
              then map_option (\<lambda>d. float_div d 2) (props (s nd) ''dist'')
            else props (s im) k)"
    using ne by (auto simp: s6_def s5_def s4_im_p s3_im s3_nd split: option.splits)
  moreover have "s6 nd = (s nd)\<lparr>up := Some im,
           props := (case props (s nd) ''dist'' of None \<Rightarrow> props (s nd)
              | Some d \<Rightarrow> (props (s nd))(''dist'' \<mapsto> float_div d 2))\<rparr>"
    using ne by (simp add: s6_def s5_def s4_o s3_nd)
  moreover have "s6 u = (s u)\<lparr>children := (children (s u))[p := im]\<rparr>"
  proof -
    have "insert_at (pop_at cs p) p im = cs[p := im]"
      using pl by (simp add: insert_at_def pop_at_def upd_conv_take_nth_drop min_def)
    then show ?thesis
      using ne by (simp add: s6_def s5_def s4_o s3_u cs_def)
  qed
  moreover have "\<forall>a. a \<noteq> im \<and> a \<noteq> nd \<and> a \<noteq> u \<longrightarrow> s6 a = s a"
    by (simp add: s6_def s5_def s4_o s3_o)
  ultimately show ?thesis using res by (intro exI [where x = s6]) simp
qed


lemma index_of_list_update:
  assumes "y \<notin> set xs" and "p < length xs"
  shows "index_of (xs[p := y]) y = Some p"
proof -
  have "y \<notin> set (take p xs)" using assms(1) by (auto dest: in_set_takeD)
  then show ?thesis using assms(2) by (simp add: index_of_Some_iff)
qed

lemma join_branch_result:
  assumes ch: "children (s n) = [c]"
    and sup: "props (s n) ''support'' = None \<or> props (s c) ''support'' = None
      \<or> props (s n) ''support'' = props (s c) ''support''"
    and u: "up (s n) = Some u" and i: "index_of (children (s u)) n = Some p"
    and ne: "c \<noteq> n" "c \<noteq> u"
  shows "\<exists>s'. join_branch s n = Inr s'
     \<and> s' c = (s c)\<lparr>up := Some u,
           props := (case props (s n) ''dist'' of None \<Rightarrow> props (s c)
              | Some d \<Rightarrow> (props (s c))(''dist'' \<mapsto>
                  float_add (case props (s c) ''dist'' of None \<Rightarrow> 0 | Some x \<Rightarrow> x) d))\<rparr>
     \<and> s' u = (s u)\<lparr>children := (children (s u))[p := c]\<rparr>
     \<and> (\<forall>a. a \<noteq> c \<and> a \<noteq> u \<longrightarrow> s' a = s a)"
proof -
  define cs where "cs = children (s u)"
  have pl: "p < length cs" using i by (simp add: index_of_Some_iff cs_def)
  define s1 where "s1 = (case props (s n) ''dist'' of None \<Rightarrow> s
     | Some d \<Rightarrow> set_prop s c ''dist''
         (float_add (case props (s c) ''dist'' of None \<Rightarrow> 0 | Some x \<Rightarrow> x) d))"
  have s1_c: "s1 c = (s c)\<lparr>props := (case props (s n) ''dist'' of None \<Rightarrow> props (s c)
              | Some d \<Rightarrow> (props (s c))(''dist'' \<mapsto>
                  float_add (case props (s c) ''dist'' of None \<Rightarrow> 0 | Some x \<Rightarrow> x) d))\<rparr>"
    and s1_o: "\<And>a. a \<noteq> c \<Longrightarrow> s1 a = s a"
    by (simp_all add: s1_def set_prop_def split: option.splits)
  have u1: "up (s1 n) = Some u" using ne u by (simp add: s1_o)
  have i1: "index_of (children (s1 u)) n = Some p" using ne i by (simp add: s1_o)
  define s2 where "s2 = s1(u := (s1 u)\<lparr>children := pop_at (children (s1 u)) p\<rparr>)"
  define s3 where "s3 = s2(u := (s2 u)\<lparr>children := insert_at (children (s2 u)) p c\<rparr>)"
  define s4 where "s4 = s3(c := (s3 c)\<lparr>up := Some u\<rparr>)"
  have c0: "children (s n) ! 0 = c" and l1: "length (children (s n)) = 1"
    by (simp_all add: ch)
  have nsup: "\<not> (case (props (s n) ''support'', props (s c) ''support'') of
               (Some a, Some b) \<Rightarrow> a \<noteq> b | _ \<Rightarrow> False)"
    using sup by (auto split: option.splits)
  have "join_branch s n =
     (case up (s1 n) of None \<Rightarrow> Inl (AttributeError, s1)
      | Some u \<Rightarrow> (case index_of (children (s1 u)) n of None \<Rightarrow> Inl (ValueError, s1)
         | Some pos_in_parent \<Rightarrow>
             (let s2 = s1(u := (s1 u)\<lparr>children := pop_at (children (s1 u)) pos_in_parent\<rparr>);
                  s3 = s2(u := (s2 u)\<lparr>children := insert_at (children (s2 u)) pos_in_parent c\<rparr>)
              in Inr (s3(c := (s3 c)\<lparr>up := Some u\<rparr>)))))"
    unfolding join_branch_def Let_def c0 l1 s1_def using nsup by simp
  then have res: "join_branch s n = Inr s4"
    unfolding u1 i1 option.case Let_def s4_def s3_def s2_def .
  have "insert_at (pop_at cs p) p c = cs[p := c]"
    using pl by (simp add: insert_at_def pop_at_def upd_conv_take_nth_drop min_def)
  then have "s4 u = (s u)\<lparr>children := (children (s u))[p := c]\<rparr>"
    using ne by (simp add: s4_def s3_def s2_def s1_o cs_def)
  moreover have "s4 c = (s c)\<lparr>up := Some u,
           props := (case props (s n) ''dist'' of None \<Rightarrow> props (s c)
              | Some d \<Rightarrow> (props (s c))(''dist'' \<mapsto>
                  float_add (case props (s c) ''dist'' of None \<Rightarrow> 0 | Some x \<Rightarrow> x) d))\<rparr>"
    using ne by (simp add: s4_def s3_def s2_def s1_c)
  moreover have "\<forall>a. a \<noteq> c \<and> a \<noteq> u \<longrightarrow> s4 a = s a"
    by (simp add: s4_def s3_def s2_def s1_o)
  ultimately show ?thesis using res by (intro exI [where x = s4]) simp
qed


lemma insert_then_join_result:
  assumes u: "up (s nd) = Some u" and mem: "nd \<in> set (children (s u))"
    and d: "props (s nd) ''dist'' = Some d"
    and fresh: "children (s im) = []" "im \<notin> set (children (s u))"
    and ne: "im \<noteq> nd" "im \<noteq> u" "nd \<noteq> u"
  shows "\<exists>s1 s2. insert_intermediate s nd im bprops = Inr s1
     \<and> join_branch s1 im = Inr s2
     \<and> props (s1 nd) ''dist'' = Some (float_div d 2)
     \<and> props (s1 im) ''dist'' = Some (float_div d 2)
     \<and> s2 nd = (s nd)\<lparr>props := (props (s nd))(''dist'' \<mapsto>
           float_add (float_div d 2) (float_div d 2))\<rparr>
     \<and> s2 u = s u
     \<and> (\<forall>a. a \<noteq> im \<and> a \<noteq> nd \<longrightarrow> s2 a = s a)"
proof -
  define cs where "cs = children (s u)"
  obtain p where i: "index_of cs nd = Some p"
    using index_of_mem [OF mem] cs_def by auto
  then have pl: "p < length cs" and pn: "cs ! p = nd"
    by (simp_all add: index_of_Some_iff)
  obtain s1 where r1: "insert_intermediate s nd im bprops = Inr s1"
    and s1_up: "up (s1 im) = Some u"
    and s1_ch: "children (s1 im) = children (s im) @ [nd]"
    and s1_pr: "\<And>k. props (s1 im) k =
           (if k \<in> set (''support'' # bprops) \<and> k \<noteq> ''dist'' \<and> props (s nd) k \<noteq> None
              then props (s nd) k
            else if k = ''dist'' \<and> props (s nd) ''dist'' \<noteq> None
              then map_option (\<lambda>d. float_div d 2) (props (s nd) ''dist'')
            else props (s im) k)"
    and s1_nd: "s1 nd = (s nd)\<lparr>up := Some im,
           props := (case props (s nd) ''dist'' of None \<Rightarrow> props (s nd)
              | Some d \<Rightarrow> (props (s nd))(''dist'' \<mapsto> float_div d 2))\<rparr>"
    and s1_u: "s1 u = (s u)\<lparr>children := (children (s u))[p := im]\<rparr>"
    and s1_o: "\<And>a. a \<noteq> im \<and> a \<noteq> nd \<and> a \<noteq> u \<Longrightarrow> s1 a = s a"
    using insert_intermediate_result [of s nd u p im bprops, OF u i [unfolded cs_def] ne]
    by blast
  have ch: "children (s1 im) = [nd]" by (simp add: s1_ch fresh)
  have sup: "props (s1 im) ''support'' = None \<or> props (s1 nd) ''support'' = None
      \<or> props (s1 im) ''support'' = props (s1 nd) ''support''"
    by (auto simp: s1_pr s1_nd d)
  have i1: "index_of (children (s1 u)) im = Some p"
    using index_of_list_update [of im cs p] fresh(2) pl by (simp add: s1_u cs_def)
  obtain s2 where r2: "join_branch s1 im = Inr s2"
    and s2_nd: "s2 nd = (s1 nd)\<lparr>up := Some u,
           props := (case props (s1 im) ''dist'' of None \<Rightarrow> props (s1 nd)
              | Some d \<Rightarrow> (props (s1 nd))(''dist'' \<mapsto>
                  float_add (case props (s1 nd) ''dist'' of None \<Rightarrow> 0 | Some x \<Rightarrow> x) d))\<rparr>"
    and s2_u: "s2 u = (s1 u)\<lparr>children := (children (s1 u))[p := nd]\<rparr>"
    and s2_o: "\<And>a. a \<noteq> nd \<and> a \<noteq> u \<Longrightarrow> s2 a = s1 a"
    using join_branch_result [of s1 im nd u p, OF ch sup s1_up i1] ne by blast
  have h1: "props (s1 nd) ''dist'' = Some (float_div d 2)" by (simp add: s1_nd d)
  have h2: "props (s1 im) ''dist'' = Some (float_div d 2)" by (simp add: s1_pr d)
  have nd: "s2 nd = (s nd)\<lparr>props := (props (s nd))(''dist'' \<mapsto>
           float_add (float_div d 2) (float_div d 2))\<rparr>"
    using u by (simp add: s2_nd h1 h2 s1_nd d)
  have "cs[p := nd] = cs" using pn by (simp add: list_update_same_conv pl)
  then have uu: "s2 u = s u"
    using pl by (simp add: s2_u s1_u cs_def)
  have oth: "\<forall>a. a \<noteq> im \<and> a \<noteq> nd \<longrightarrow> s2 a = s a"
  proof (intro allI impI)
    fix a assume "a \<noteq> im \<and> a \<noteq> nd"
    then show "s2 a = s a"
      using uu s2_o [of a] s1_o [of a] by (cases "a = u") simp_all
  qed
  show ?thesis
    using r1 r2 h1 h2 nd uu oth
    by (intro exI [where x = s1] exI [where x = s2]) simp
qed

lemma halves_recombine:
  assumes "to_double d = d" and "d = 0 \<or> 2 powi (- 1021) \<le> \<bar>d\<bar>"
  shows "float_add (float_div d 2) (float_div d 2) = d"
proof -
  have "to_double (d / 2) = d / 2"
  proof (cases "d = 0")
    case True
    have "to_double 0 = 0" by (simp add: to_double_def round_half_even_def)
    then show ?thesis using True by simp
  next
    case False
    then show ?thesis using assms halving_exact by blast
  qed
  then have "float_add (float_div d 2) (float_div d 2) = to_double (d / 2 + d / 2)"
    by (simp only: float_add_def float_div_def)
  also have "d / 2 + d / 2 = d" by simp
  finally show ?thesis using assms(1) by simp
qed


text \<open>
  The example store with the branch of \<open>a\<close> (address 3) as short as a double can be.
\<close>

definition tiny_store :: store where
  "tiny_store = ex_store(3 := \<lparr>up = Some 1, children = [], props = [''dist'' \<mapsto> tiny]\<rparr>)"

text \<open>
  Claim C5, as amended. Let \<open>nd\<close> be a node with parent \<open>u\<close> and a \<open>dist\<close> value \<open>d\<close>, a
  finite double, and \<open>im\<close> a new node (without children and not among the children of \<open>u\<close>). Then
  \<open>insert_intermediate\<close> returns, leaving the rounded half of \<open>d\<close> on both nodes, and
  \<open>join_branch\<close> on the inserted node returns and restores the linkage: \<open>nd\<close> has its
  parent \<open>u\<close> and its children again, and \<open>u\<close> is as it was, with \<open>nd\<close> in its slot of the
  child sequence; beside the object \<open>im\<close>, only the \<open>dist\<close> of \<open>nd\<close> can differ from the
  original store. That \<open>dist\<close> is the double sum of the two rounded halves. It is \<open>d\<close>
  again, and \<open>nd\<close> wholly restored, when \<open>d\<close> is 0 or of magnitude at least
  \<open>2 ^ - 1021\<close>, for which halving is exact.
\<close>

theorem insert_then_join_round_trip:
  assumes u: "up (s nd) = Some u" and mem: "nd \<in> set (children (s u))"
    and d: "props (s nd) ''dist'' = Some d"
    and fd: "finite_double d"
    and fresh: "children (s im) = []" "im \<notin> set (children (s u))"
    and ne: "im \<noteq> nd" "im \<noteq> u" "nd \<noteq> u"
  shows "\<exists>s1 s2. insert_intermediate s nd im bprops = Inr s1
     \<and> join_branch s1 im = Inr s2
     \<and> props (s1 nd) ''dist'' = Some (float_div d 2)
     \<and> props (s1 im) ''dist'' = Some (float_div d 2)
     \<and> s2 nd = (s nd)\<lparr>props := (props (s nd))(''dist'' \<mapsto>
           float_add (float_div d 2) (float_div d 2))\<rparr>
     \<and> s2 u = s u
     \<and> (\<forall>a. a \<noteq> im \<and> a \<noteq> nd \<longrightarrow> s2 a = s a)
     \<and> (d = 0 \<or> 2 powi (- 1021) \<le> \<bar>d\<bar> \<longrightarrow> s2 nd = s nd)"
proof -
  obtain s1 s2 where r: "insert_intermediate s nd im bprops = Inr s1"
      "join_branch s1 im = Inr s2"
      "props (s1 nd) ''dist'' = Some (float_div d 2)"
      "props (s1 im) ''dist'' = Some (float_div d 2)"
    and nd: "s2 nd = (s nd)\<lparr>props := (props (s nd))(''dist'' \<mapsto>
           float_add (float_div d 2) (float_div d 2))\<rparr>"
    and o: "s2 u = s u" "\<forall>a. a \<noteq> im \<and> a \<noteq> nd \<longrightarrow> s2 a = s a"
    using insert_then_join_result [of s nd u d im bprops, OF u mem d fresh ne] by blast
  have "s2 nd = s nd" if "d = 0 \<or> 2 powi (- 1021) \<le> \<bar>d\<bar>"
  proof -
    have "to_double d = d" using fd by (simp add: finite_double_def)
    then have "float_add (float_div d 2) (float_div d 2) = d"
      using that halves_recombine by blast
    moreover have "(props (s nd))(''dist'' \<mapsto> d) = props (s nd)"
      using d by (rule map_upd_triv)
    ultimately show ?thesis by (simp add: nd)
  qed
  then show ?thesis
    using r nd o by (intro exI [where x = s1] exI [where x = s2]) simp
qed

theorem insert_then_join_round_trip_witness:
  "up (ex_store 3) = Some 1 \<and> 3 \<in> set (children (ex_store 1))
   \<and> props (ex_store 3) ''dist'' = Some 1
   \<and> finite_double 1
   \<and> children (ex_store 9) = [] \<and> 9 \<notin> set (children (ex_store 1))
   \<and> 2 powi (- 1021) \<le> \<bar>1 :: rat\<bar>
   \<and> (\<exists>s1 s2. insert_intermediate ex_store 3 9 [] = Inr s1
        \<and> join_branch s1 9 = Inr s2
        \<and> props (s1 3) ''dist'' = Some (1 / 2) \<and> props (s1 9) ''dist'' = Some (1 / 2)
        \<and> s2 3 = ex_store 3 \<and> s2 1 = ex_store 1)"
proof -
  have h: "up (ex_store 3) = Some 1" "3 \<in> set (children (ex_store 1))"
    "props (ex_store 3) ''dist'' = Some 1"
    "children (ex_store 9) = []" "9 \<notin> set (children (ex_store 1))"
    by (simp_all add: ex_store_def new_node_def)
  have n: "(9::nat) \<noteq> 3" "(9::nat) \<noteq> 1" "(3::nat) \<noteq> 1" by simp_all
  have f: "to_double 1 = 1" "float_div 1 2 = 1 / 2" by (rule one_double)+
  have fd: "finite_double 1" using f(1) by (simp add: finite_double_def)
  have g: "2 powi (- 1021) \<le> \<bar>1 :: rat\<bar>"
    using power_int_increasing [of "- 1021" 0 "2::rat"] by simp
  obtain s1 s2 where "insert_intermediate ex_store 3 9 [] = Inr s1"
    and "join_branch s1 9 = Inr s2"
    and "props (s1 3) ''dist'' = Some (float_div 1 2)"
    and "props (s1 9) ''dist'' = Some (float_div 1 2)"
    and "s2 1 = ex_store 1"
    and "(1::rat) = 0 \<or> 2 powi (- 1021) \<le> \<bar>1 :: rat\<bar> \<longrightarrow> s2 3 = ex_store 3"
    using insert_then_join_round_trip [of ex_store 3 1 1 9 "[]", OF h(1-3) fd h(4-5) n]
    by blast
  then have "\<exists>s1 s2. insert_intermediate ex_store 3 9 [] = Inr s1
        \<and> join_branch s1 9 = Inr s2
        \<and> props (s1 3) ''dist'' = Some (1 / 2) \<and> props (s1 9) ''dist'' = Some (1 / 2)
        \<and> s2 3 = ex_store 3 \<and> s2 1 = ex_store 1"
    using f g by (intro exI [where x = s1] exI [where x = s2]) simp
  then show ?thesis using h fd g by simp
qed

text \<open>
  The claim as stated, that the original \<open>dist\<close> is restored for every node with a
  \<open>dist\<close> value, fails in the subnormal range: the half of the smallest positive double
  rounds to 0, and the node is left with \<open>dist\<close> 0.
\<close>

theorem insert_then_join_subnormal_counterexample:
  "finite_double tiny \<and> 0 < tiny
   \<and> props (tiny_store 3) ''dist'' = Some tiny
   \<and> (case insert_intermediate tiny_store 3 9 [] of
        Inl e \<Rightarrow> False
      | Inr s1 \<Rightarrow>
          (case join_branch s1 9 of
             Inl e \<Rightarrow> False
           | Inr s2 \<Rightarrow> props (s1 3) ''dist'' = Some 0 \<and> props (s2 3) ''dist'' = Some 0))"
proof -
  have f: "float_div tiny 2 = 0" "float_add 0 0 = 0"
    using tiny_double(2) to_double_0 by (simp_all add: float_add_def)
  have h: "up (tiny_store 3) = Some 1" "3 \<in> set (children (tiny_store 1))"
    "props (tiny_store 3) ''dist'' = Some tiny"
    "children (tiny_store 9) = []" "9 \<notin> set (children (tiny_store 1))"
    by (simp_all add: tiny_store_def ex_store_def new_node_def)
  have n: "(9::nat) \<noteq> 3" "(9::nat) \<noteq> 1" "(3::nat) \<noteq> 1" by simp_all
  obtain s1 s2 where r1: "insert_intermediate tiny_store 3 9 [] = Inr s1"
    and r2: "join_branch s1 9 = Inr s2"
    and p1: "props (s1 3) ''dist'' = Some (float_div tiny 2)"
    and p2: "s2 3 = (tiny_store 3)\<lparr>props := (props (tiny_store 3))(''dist'' \<mapsto>
           float_add (float_div tiny 2) (float_div tiny 2))\<rparr>"
    using insert_then_join_result [of tiny_store 3 1 tiny 9 "[]", OF h n] by blast
  have "props (s1 3) ''dist'' = Some 0" by (simp only: p1 f)
  moreover have "props (s2 3) ''dist'' = Some 0" by (simp add: p2 f)
  moreover have "finite_double tiny"
  proof -
    have "(1::rat) / 2 ^ 1074 \<le> 1" by simp
    also have "(1::rat) < 2 ^ 1024" by simp
    finally show ?thesis using tiny_double(1) by (simp add: finite_double_def tiny_def)
  qed
  ultimately show ?thesis by (simp add: r1 r2 h(3) tiny_double)
qed

section \<open>Rerooting a well-formed tree\<close>

text \<open>
  A path in the store: from the node \<open>a\<close>, each step \<open>(p, b)\<close> goes to the child \<open>b\<close> that
  stands at position \<open>p\<close> of the current node and whose parent reference is the current
  node.
\<close>

fun chain :: "store \<Rightarrow> addr \<Rightarrow> (nat \<times> addr) list \<Rightarrow> bool" where
  "chain s a [] = True"
| "chain s a ((p, b) # rest) =
     (up (s b) = Some a \<and> index_of (children (s a)) b = Some p \<and> chain s b rest)"

text \<open>The same without the parent references: what \<open>pop_child\<close> follows.\<close>

fun links :: "store \<Rightarrow> addr \<Rightarrow> (nat \<times> addr) list \<Rightarrow> bool" where
  "links s a [] = True"
| "links s a ((p, b) # rest) =
     (p < length (children (s a)) \<and> children (s a) ! p = b \<and> links s b rest)"


lemma root_of_None: "up (s n) = None \<Longrightarrow> root_of s n = Some n"
  by (subst root_of.simps) simp

lemma root_of_Some: "up (s n) = Some u \<Longrightarrow> root_of s n = root_of s u"
  by (subst root_of.simps) simp

lemma node_id_None: "up (s n) = None \<Longrightarrow> node_id s n = Some (Inr [])"
  by (subst node_id.simps) simp

lemma node_id_Some:
  "up (s n) = Some u \<Longrightarrow> index_of (children (s u)) n = Some i \<Longrightarrow>
   node_id s n = Option.bind (node_id s u)
     (\<lambda>r. Some (case r of Inl e \<Rightarrow> Inl e | Inr ps \<Rightarrow> Inr (ps @ [i])))"
  by (subst node_id.simps) simp

lemma chain_root_of:
  "chain s a ps \<Longrightarrow> root_of s (last (a # map snd ps)) = root_of s a"
proof (induction ps arbitrary: a)
  case Nil
  show ?case by simp
next
  case (Cons x rest)
  obtain p b where x: "x = (p, b)" by (cases x)
  have "root_of s (last (b # map snd rest)) = root_of s b"
    using Cons.IH [of b] Cons.prems by (simp add: x)
  also have "root_of s b = root_of s a"
    using Cons.prems root_of_Some [of s b a] by (simp add: x)
  finally show ?case by (simp add: x)
qed

lemma chain_node_id:
  "chain s a ps \<Longrightarrow> node_id s a = Some (Inr q) \<Longrightarrow>
   node_id s (last (a # map snd ps)) = Some (Inr (q @ map fst ps))"
proof (induction ps arbitrary: a q)
  case Nil
  then show ?case by simp
next
  case (Cons x rest)
  obtain p b where x: "x = (p, b)" by (cases x)
  have "node_id s b = Some (Inr (q @ [p]))"
    using Cons.prems node_id_Some [of s b a p] by (simp add: x)
  then have "node_id s (last (b # map snd rest)) = Some (Inr ((q @ [p]) @ map fst rest))"
    using Cons.IH [of b "q @ [p]"] Cons.prems by (simp add: x)
  then show ?case by (simp add: x)
qed

lemma chain_links: "chain s a ps \<Longrightarrow> links s a ps"
  by (induction ps arbitrary: a) (auto simp: index_of_Some_iff)


lemma swap_prop_other: "c \<noteq> n1 \<Longrightarrow> c \<noteq> n2 \<Longrightarrow> swap_prop n1 n2 k s c = s c"
  by (simp add: swap_prop_def Let_def set_prop_def del_prop_def split: option.splits)

lemma swap_prop_up_children:
  "up (swap_prop n1 n2 k s c) = up (s c) \<and> children (swap_prop n1 n2 k s c) = children (s c)"
  by (simp add: swap_prop_def Let_def set_prop_def del_prop_def split: option.splits)

lemma swap_prop_props:
  assumes "n1 \<noteq> n2"
  shows "props (swap_prop n1 n2 k s n1) j = (if j = k then props (s n2) j else props (s n1) j)"
    and "props (swap_prop n1 n2 k s n2) j = (if j = k then props (s n1) j else props (s n2) j)"
  using assms
  by (auto simp: swap_prop_def Let_def set_prop_def del_prop_def split: option.splits)

lemma swap_props_other: "c \<noteq> n1 \<Longrightarrow> c \<noteq> n2 \<Longrightarrow> swap_props s n1 n2 ks c = s c"
  unfolding swap_props_def
  by (induction ks arbitrary: s) (simp_all add: swap_prop_other)

lemma swap_props_up_children:
  "up (swap_props s n1 n2 ks c) = up (s c) \<and> children (swap_props s n1 n2 ks c) = children (s c)"
  unfolding swap_props_def
  by (induction ks arbitrary: s) (simp_all add: swap_prop_up_children)

lemma swap_props_props:
  assumes "n1 \<noteq> n2"
  shows "(props (swap_props s n1 n2 ks n1) j = props (s n1) j
          \<and> props (swap_props s n1 n2 ks n2) j = props (s n2) j)
       \<or> (props (swap_props s n1 n2 ks n1) j = props (s n2) j
          \<and> props (swap_props s n1 n2 ks n2) j = props (s n1) j)"
  unfolding swap_props_def
proof (induction ks arbitrary: s)
  case Nil
  show ?case by simp
next
  case (Cons k ks)
  show ?case
    using Cons.IH [of "swap_prop n1 n2 k s"] swap_prop_props [OF assms, of k s j]
    by (cases "j = k") auto
qed

lemma rehang_result:
  assumes p: "p < length (children (s a))" and b: "children (s a) ! p = b" and ne: "a \<noteq> b"
  shows "\<exists>s'. rehang s a p bprops = Inr (b, s')
     \<and> up (s' b) = None \<and> children (s' b) = children (s b) @ [a]
     \<and> up (s' a) = Some b \<and> children (s' a) = pop_at (children (s a)) p
     \<and> ((props (s' a) j = props (s a) j \<and> props (s' b) j = props (s b) j)
        \<or> (props (s' a) j = props (s b) j \<and> props (s' b) j = props (s a) j))
     \<and> (\<forall>c. c \<noteq> a \<and> c \<noteq> b \<longrightarrow> s' c = s c)"
proof -
  define s1 where "s1 = s(a := (s a)\<lparr>children := pop_at (children (s a)) p\<rparr>)"
  define s2 where "s2 = s1(b := (s1 b)\<lparr>up := None\<rparr>)"
  define s3 where "s3 = add_child s2 b a"
  define s4 where "s4 = swap_props s3 a b ([''dist'', ''support''] @ bprops)"
  have pc: "pop_child s a p = Inr (b, s2)"
    unfolding pop_child_def Let_def s2_def s1_def using p b by simp
  have res: "rehang s a p bprops = Inr (b, s4)"
    unfolding rehang_def pc s4_def s3_def by (simp add: Let_def)
  have s3_b: "s3 b = (s b)\<lparr>up := None, children := children (s b) @ [a]\<rparr>"
    and s3_a: "s3 a = (s a)\<lparr>children := pop_at (children (s a)) p, up := Some b\<rparr>"
    and s3_o: "\<And>c. c \<noteq> a \<Longrightarrow> c \<noteq> b \<Longrightarrow> s3 c = s c"
    using ne by (simp_all add: s3_def s2_def s1_def add_child_def Let_def)
  have "up (s4 b) = None" "children (s4 b) = children (s b) @ [a]"
    "up (s4 a) = Some b" "children (s4 a) = pop_at (children (s a)) p"
    unfolding s4_def by (simp_all add: swap_props_up_children s3_a s3_b)
  moreover have "(props (s4 a) j = props (s a) j \<and> props (s4 b) j = props (s b) j)
        \<or> (props (s4 a) j = props (s b) j \<and> props (s4 b) j = props (s a) j)"
    unfolding s4_def
    using swap_props_props [OF ne, of s3 "[''dist'', ''support''] @ bprops" j]
    by (simp add: s3_a s3_b)
  moreover have "\<forall>c. c \<noteq> a \<and> c \<noteq> b \<longrightarrow> s4 c = s c"
    unfolding s4_def by (simp add: swap_props_other s3_o)
  ultimately show ?thesis using res by (intro exI [where x = s4]) simp
qed


lemma links_agree:
  "(\<And>c. c \<in> set (a # map snd ps) \<Longrightarrow> children (s' c) = children (s c)) \<Longrightarrow>
   links s' a ps = links s a ps"
proof (induction ps arbitrary: a)
  case Nil
  show ?case by simp
next
  case (Cons x rest)
  obtain p b where x: "x = (p, b)" by (cases x)
  have "links s' b rest = links s b rest"
    using Cons.IH [of b] Cons.prems by (simp add: x)
  moreover have "children (s' a) = children (s a)"
    using Cons.prems [of a] by simp
  ultimately show ?case by (simp add: x)
qed

lemma pop_at_append_last:
  "p < length xs \<Longrightarrow> pop_at (xs @ [a]) p = pop_at xs p @ [a]"
  by (simp add: pop_at_def)

lemma rehang_all_result:
  assumes "links s a ps" and "distinct (a # map snd ps)"
  shows "\<exists>s'. rehang_all s a (map fst ps) bprops = Inr s'
    \<and> (\<forall>c. c \<notin> set (a # map snd ps) \<longrightarrow> s' c = s c)
    \<and> (ps \<noteq> [] \<longrightarrow>
         up (s' (snd (last ps))) = None
       \<and> children (s' (snd (last ps)))
           = children (s (snd (last ps))) @ [last (a # map snd (butlast ps))]
       \<and> up (s' a) = Some (snd (hd ps))
       \<and> children (s' a) = pop_at (children (s a)) (fst (hd ps))
       \<and> a \<in> set (children (s' (snd (hd ps))))
       \<and> (props (s' a) j = props (s a) j \<or> props (s' a) j = props (s (snd (hd ps))) j))"
  using assms
proof (induction ps arbitrary: s a)
  case Nil
  show ?case by simp
next
  case (Cons x rest)
  obtain p b where x: "x = (p, b)" by (cases x)
  have p: "p < length (children (s a))" and b: "children (s a) ! p = b"
    and lr: "links s b rest"
    using Cons.prems(1) by (simp_all add: x)
  have ne: "a \<noteq> b" and dr: "distinct (b # map snd rest)"
    and an: "a \<notin> set (b # map snd rest)" and bn: "b \<notin> set (map snd rest)"
    using Cons.prems(2) by (auto simp: x)
  obtain s1 where r1: "rehang s a p bprops = Inr (b, s1)"
    and s1_bu: "up (s1 b) = None" and s1_bc: "children (s1 b) = children (s b) @ [a]"
    and s1_au: "up (s1 a) = Some b" and s1_ac: "children (s1 a) = pop_at (children (s a)) p"
    and s1_pr: "(props (s1 a) j = props (s a) j \<and> props (s1 b) j = props (s b) j)
        \<or> (props (s1 a) j = props (s b) j \<and> props (s1 b) j = props (s a) j)"
    and s1_o: "\<And>c. c \<noteq> a \<and> c \<noteq> b \<Longrightarrow> s1 c = s c"
    using rehang_result [of p s a b bprops j, OF p b ne] by blast
  have l1: "links s1 b rest"
  proof (cases rest)
    case Nil
    then show ?thesis by simp
  next
    case (Cons y rest2)
    obtain p2 b2 where y: "y = (p2, b2)" by (cases y)
    have p2: "p2 < length (children (s b))" and b2: "children (s b) ! p2 = b2"
      and l2: "links s b2 rest2"
      using lr by (simp_all add: Cons y)
    have "\<And>c. c \<in> set (b2 # map snd rest2) \<Longrightarrow> children (s1 c) = children (s c)"
    proof -
      fix c assume "c \<in> set (b2 # map snd rest2)"
      then have "c \<noteq> a \<and> c \<noteq> b" using an bn by (auto simp: Cons y)
      then show "children (s1 c) = children (s c)" using s1_o [of c] by simp
    qed
    then have "links s1 b2 rest2" using l2 links_agree [of b2 rest2 s1 s] by simp
    then show ?thesis using p2 b2 by (simp add: Cons y s1_bc nth_append)
  qed
  obtain s' where r: "rehang_all s1 b (map fst rest) bprops = Inr s'"
    and fr: "\<And>c. c \<notin> set (b # map snd rest) \<Longrightarrow> s' c = s1 c"
    and ih: "rest \<noteq> [] \<Longrightarrow>
         up (s' (snd (last rest))) = None
       \<and> children (s' (snd (last rest)))
           = children (s1 (snd (last rest))) @ [last (b # map snd (butlast rest))]
       \<and> children (s' b) = pop_at (children (s1 b)) (fst (hd rest))"
    using Cons.IH [OF l1 dr] by blast
  have res: "rehang_all s a (map fst (x # rest)) bprops = Inr s'"
    by (simp add: x r1 r)
  have sa: "s' a = s1 a" using fr [of a] an by simp
  have frame: "\<forall>c. c \<notin> set (a # map snd (x # rest)) \<longrightarrow> s' c = s c"
  proof (intro allI impI)
    fix c assume c: "c \<notin> set (a # map snd (x # rest))"
    then have "c \<notin> set (b # map snd rest)" and "c \<noteq> a \<and> c \<noteq> b" by (auto simp: x)
    then show "s' c = s c" using fr [of c] s1_o [of c] by simp
  qed
  have first: "up (s' a) = Some (snd (hd (x # rest)))"
    "children (s' a) = pop_at (children (s a)) (fst (hd (x # rest)))"
    "props (s' a) j = props (s a) j \<or> props (s' a) j = props (s (snd (hd (x # rest)))) j"
    using s1_pr by (auto simp: sa s1_au s1_ac x)
  have lastp: "up (s' (snd (last (x # rest)))) = None
       \<and> children (s' (snd (last (x # rest))))
           = children (s (snd (last (x # rest)))) @ [last (a # map snd (butlast (x # rest)))]
       \<and> a \<in> set (children (s' (snd (hd (x # rest)))))"
  proof (cases "rest = []")
    case True
    then have "s' = s1" using r by simp
    then show ?thesis using True by (simp add: x s1_bu s1_bc)
  next
    case False
    have "snd (last rest) \<in> set (map snd rest)" using False by simp
    then have "snd (last rest) \<noteq> a \<and> snd (last rest) \<noteq> b" using an bn by auto
    then have "s1 (snd (last rest)) = s (snd (last rest))" using s1_o by simp
    moreover obtain y rest2 where rr: "rest = y # rest2" using False by (cases rest) auto
    have "fst y < length (children (s b))" using lr by (cases y) (simp add: rr)
    then have "a \<in> set (children (s' b))"
      using ih [OF False] by (simp add: rr s1_bc pop_at_append_last)
    ultimately show ?thesis using ih [OF False] False by (simp add: x)
  qed
  show ?case using res frame first lastp by blast
qed


lemma fold_clear_up:
  "fold (\<lambda>c s'. s'(c := (s' c)\<lparr>up := None\<rparr>)) cs s0 a
     = (if a \<in> set cs then (s0 a)\<lparr>up := None\<rparr> else s0 a)"
  by (induction cs arbitrary: s0) auto

lemma add_children_result:
  "rep \<notin> set cs \<Longrightarrow>
   add_children s0 rep cs a =
     (if a = rep then (s0 rep)\<lparr>children := children (s0 rep) @ cs\<rparr>
      else if a \<in> set cs then (s0 a)\<lparr>up := Some rep\<rparr> else s0 a)"
  unfolding add_children_def
proof (induction cs arbitrary: s0)
  case Nil
  show ?case by simp
next
  case (Cons c cs)
  then have "rep \<noteq> c" and "rep \<notin> set cs" by auto
  then show ?case
    using Cons.IH [of "add_child s0 rep c"]
    by (auto simp: add_child_def Let_def)
qed

lemma take_children_result:
  assumes "rep \<noteq> r" and "rep \<notin> set (children (s r))" and "r \<notin> set (children (s r))"
  shows "(let s1 = s(rep := new_node); (cs, s2) = remove_children s1 r
          in add_children s2 rep cs) =
         (\<lambda>a. if a = rep then \<lparr>up = None, children = children (s r), props = Map.empty\<rparr>
              else if a = r then (s r)\<lparr>children := []\<rparr>
              else if a \<in> set (children (s r)) then (s a)\<lparr>up := Some rep\<rparr>
              else s a)"
proof
  fix a
  define s1 where "s1 = s(rep := new_node)"
  define cs where "cs = children (s r)"
  define s2 where "s2 = fold (\<lambda>c s'. s'(c := (s' c)\<lparr>up := None\<rparr>)) cs
        (s1(r := (s1 r)\<lparr>children := []\<rparr>))"
  have c1: "children (s1 r) = cs" using assms(1) by (simp add: s1_def cs_def)
  have e: "(let s1 = s(rep := new_node); (cs, s2) = remove_children s1 r
          in add_children s2 rep cs) = add_children s2 rep cs"
    unfolding Let_def remove_children_def s1_def [symmetric] c1 s2_def by simp
  have rn: "rep \<notin> set cs" using assms(2) by (simp add: cs_def)
  have s2a: "\<And>b. s2 b = (if b \<in> set cs then (s1(r := (s1 r)\<lparr>children := []\<rparr>)) b\<lparr>up := None\<rparr>
      else (s1(r := (s1 r)\<lparr>children := []\<rparr>)) b)"
    unfolding s2_def by (rule fold_clear_up)
  show "(let s1 = s(rep := new_node); (cs, s2) = remove_children s1 r
          in add_children s2 rep cs) a =
         (if a = rep then \<lparr>up = None, children = children (s r), props = Map.empty\<rparr>
              else if a = r then (s r)\<lparr>children := []\<rparr>
              else if a \<in> set (children (s r)) then (s a)\<lparr>up := Some rep\<rparr>
              else s a)"
    unfolding e add_children_result [OF rn] s2a
    using assms rn by (auto simp: s1_def cs_def new_node_def)
qed


lemma links_snoc:
  "links s a (qs @ [(p, b)]) \<longleftrightarrow>
     links s a qs \<and> p < length (children (s (last (a # map snd qs))))
     \<and> children (s (last (a # map snd qs))) ! p = b"
  by (induction qs arbitrary: a) auto

lemma chain_snoc:
  "chain s a (qs @ [(p, b)]) \<longleftrightarrow>
     chain s a qs \<and> up (s b) = Some (last (a # map snd qs))
     \<and> index_of (children (s (last (a # map snd qs)))) b = Some p"
  by (induction qs arbitrary: a) auto

lemma links_agree_sources:
  "(\<And>c. c \<in> set (butlast (a # map snd ps)) \<Longrightarrow> children (s' c) = children (s c)) \<Longrightarrow>
   links s' a ps = links s a ps"
proof (induction ps arbitrary: a)
  case Nil
  show ?case by simp
next
  case (Cons x rest)
  obtain p b where x: "x = (p, b)" by (cases x)
  have "links s' b rest = links s b rest"
    using Cons.IH [of b] Cons.prems by (simp add: x)
  moreover have "children (s' a) = children (s a)"
    using Cons.prems [of a] by simp
  ultimately show ?case by (simp add: x)
qed

lemma chain_agree:
  "(\<And>c. c \<in> set (a # map snd ps) \<Longrightarrow> children (s' c) = children (s c)) \<Longrightarrow>
   (\<And>c. c \<in> set (map snd ps) \<Longrightarrow> up (s' c) = up (s c)) \<Longrightarrow>
   chain s' a ps = chain s a ps"
proof (induction ps arbitrary: a)
  case Nil
  show ?case by simp
next
  case (Cons x rest)
  obtain p b where x: "x = (p, b)" by (cases x)
  have "chain s' b rest = chain s b rest"
    using Cons.IH [of b] Cons.prems by (simp add: x)
  moreover have "children (s' a) = children (s a)" "up (s' b) = up (s b)"
    using Cons.prems(1) [of a] Cons.prems(2) [of b] by (simp_all add: x)
  ultimately show ?case by (simp add: x)
qed

lemma chain_up_in:
  "chain s a ps \<Longrightarrow> b \<in> set (map snd ps) \<Longrightarrow>
   \<exists>a'. a' \<in> set (a # map snd ps) \<and> up (s b) = Some a'"
proof (induction ps arbitrary: a)
  case Nil
  then show ?case by simp
next
  case (Cons x rest)
  obtain p c where x: "x = (p, c)" by (cases x)
  show ?case
  proof (cases "b = c")
    case True
    then show ?thesis using Cons.prems by (auto simp: x)
  next
    case False
    then have "b \<in> set (map snd rest)" using Cons.prems(2) by (simp add: x)
    moreover have "chain s c rest" using Cons.prems(1) by (simp add: x)
    ultimately obtain a' where "a' \<in> set (c # map snd rest)" "up (s b) = Some a'"
      using Cons.IH [of c] by blast
    then show ?thesis by (auto simp: x)
  qed
qed

lemma pop_at_list_update: "pop_at (xs[p := y]) p = pop_at xs p"
  by (simp add: pop_at_def drop_update_cancel)

lemma nth_notin_pop_at:
  "distinct xs \<Longrightarrow> p < length xs \<Longrightarrow> xs ! p \<notin> set (pop_at xs p)"
proof -
  assume d: "distinct xs" and p: "p < length xs"
  have "xs = take p xs @ xs ! p # drop (Suc p) xs" using p by (rule id_take_nth_drop)
  then have "distinct (take p xs @ xs ! p # drop (Suc p) xs)" using d by simp
  then show ?thesis by (auto simp: pop_at_def)
qed

lemma assert_root_consistency_None:
  assumes "assert_root_consistency s r bprops = None"
  shows "props (s r) ''support'' = None"
    and "children (s r) = [a, b] \<Longrightarrow> props (s a) ''support'' = props (s b) ''support''"
proof -
  have f: "find (\<lambda>pname. props (s r) pname \<noteq> None) (''support'' # bprops) = None"
    using assms by (auto simp: assert_root_consistency_def split: if_splits option.splits)
  then show "props (s r) ''support'' = None"
    by (simp split: if_splits)
  show "children (s r) = [a, b] \<Longrightarrow> props (s a) ''support'' = props (s b) ''support''"
    using assms f by (auto simp: assert_root_consistency_def split: if_splits)
qed


lemma swap_props_absent:
  "k \<notin> set ks \<Longrightarrow> props (swap_props s n1 n2 ks c) k = props (s c) k"
  unfolding swap_props_def
proof (induction ks arbitrary: s)
  case Nil
  show ?case by simp
next
  case (Cons j ks)
  then have "j \<noteq> k" and "k \<notin> set ks" by auto
  moreover have "props (swap_prop n1 n2 j s c) k = props (s c) k" if "j \<noteq> k"
    using that
    by (simp add: swap_prop_def Let_def set_prop_def del_prop_def split: option.splits)
  ultimately show ?case using Cons.IH [of "swap_prop n1 n2 j s"] by simp
qed

lemma swap_props_once:
  assumes "n1 \<noteq> n2" and "k \<notin> set ks"
  shows "props (swap_props s n1 n2 (k # ks) n1) k = props (s n2) k"
    and "props (swap_props s n1 n2 (k # ks) n2) k = props (s n1) k"
proof -
  have e: "swap_props s n1 n2 (k # ks) = swap_props (swap_prop n1 n2 k s) n1 n2 ks"
    by (simp add: swap_props_def)
  show "props (swap_props s n1 n2 (k # ks) n1) k = props (s n2) k"
    unfolding e swap_props_absent [OF assms(2)] using swap_prop_props(1) [OF assms(1)] by simp
  show "props (swap_props s n1 n2 (k # ks) n2) k = props (s n1) k"
    unfolding e swap_props_absent [OF assms(2)] using swap_prop_props(2) [OF assms(1)] by simp
qed

lemma rehang_dist:
  assumes p: "p < length (children (s a))" and b: "children (s a) ! p = b" and ne: "a \<noteq> b"
    and nd: "''dist'' \<notin> set bprops"
    and r: "rehang s a p bprops = Inr (b, s')"
  shows "props (s' b) ''dist'' = props (s a) ''dist''"
proof -
  define s1 where "s1 = s(a := (s a)\<lparr>children := pop_at (children (s a)) p\<rparr>)"
  define s2 where "s2 = s1(b := (s1 b)\<lparr>up := None\<rparr>)"
  define s3 where "s3 = add_child s2 b a"
  have pc: "pop_child s a p = Inr (b, s2)"
    unfolding pop_child_def Let_def s2_def s1_def using p b by simp
  have "rehang s a p bprops = Inr (b, swap_props s3 a b (''dist'' # ''support'' # bprops))"
    unfolding rehang_def pc s3_def by (simp add: Let_def)
  then have s': "s' = swap_props s3 a b (''dist'' # ''support'' # bprops)"
    using r by simp
  have k: "''dist'' \<notin> set (''support'' # bprops)" using nd by simp
  have "props (s3 a) = props (s a)"
    using ne by (simp add: s3_def s2_def s1_def add_child_def Let_def)
  then show ?thesis
    unfolding s' using swap_props_once(2) [OF ne k, of s3] by simp
qed

lemma rehang_all_dist:
  assumes "links s a ps" and "distinct (a # map snd ps)" and "ps \<noteq> []"
    and nd: "''dist'' \<notin> set bprops"
    and "rehang_all s a (map fst ps) bprops = Inr s'"
  shows "props (s' (snd (last ps))) ''dist'' = props (s a) ''dist''"
  using assms(1,2,3,5)
proof (induction ps arbitrary: s a)
  case Nil
  then show ?case by simp
next
  case (Cons x rest)
  obtain p b where x: "x = (p, b)" by (cases x)
  have p: "p < length (children (s a))" and b: "children (s a) ! p = b"
    and lr: "links s b rest"
    using Cons.prems(1) by (simp_all add: x)
  have ne: "a \<noteq> b" and dr: "distinct (b # map snd rest)"
    and an: "a \<notin> set (b # map snd rest)" and bn: "b \<notin> set (map snd rest)"
    using Cons.prems(2) by (auto simp: x)
  obtain s1 where r1: "rehang s a p bprops = Inr (b, s1)"
    and s1_bc: "children (s1 b) = children (s b) @ [a]"
    and s1_o: "\<And>c. c \<noteq> a \<and> c \<noteq> b \<Longrightarrow> s1 c = s c"
    using rehang_result [of p s a b bprops "''dist''", OF p b ne] by blast
  have d1: "props (s1 b) ''dist'' = props (s a) ''dist''"
    using rehang_dist [of p s a b bprops s1, OF p b ne nd r1] .
  have r: "rehang_all s1 b (map fst rest) bprops = Inr s'"
    using Cons.prems(4) by (simp add: x r1)
  show ?case
  proof (cases "rest = []")
    case True
    then have "s' = s1" using r by simp
    then show ?thesis using True d1 by (simp add: x)
  next
    case False
    have l1: "links s1 b rest"
    proof -
      obtain y rest2 where rr: "rest = y # rest2" using False by (cases rest) auto
      obtain p2 b2 where y: "y = (p2, b2)" by (cases y)
      have p2: "p2 < length (children (s b))" and b2: "children (s b) ! p2 = b2"
        and l2: "links s b2 rest2"
        using lr by (simp_all add: rr y)
      have "\<And>c. c \<in> set (b2 # map snd rest2) \<Longrightarrow> children (s1 c) = children (s c)"
      proof -
        fix c assume "c \<in> set (b2 # map snd rest2)"
        then have "c \<noteq> a \<and> c \<noteq> b" using an bn by (auto simp: rr y)
        then show "children (s1 c) = children (s c)" using s1_o [of c] by simp
      qed
      then have "links s1 b2 rest2" using l2 links_agree [of b2 rest2 s1 s] by simp
      then show ?thesis using p2 b2 by (simp add: rr y s1_bc nth_append)
    qed
    have "props (s' (snd (last rest))) ''dist'' = props (s1 b) ''dist''"
      using Cons.IH [OF l1 dr False r] .
    then show ?thesis using False d1 by (simp add: x)
  qed
qed


lemma last_notin_butlast: "distinct xs \<Longrightarrow> xs \<noteq> [] \<Longrightarrow> last xs \<notin> set (butlast xs)"
  by (metis append_butlast_last_id distinct_butlast not_distinct_conv_prefix)

lemma insert_and_rehang:
  assumes ch: "chain s3 rep (qs @ [(pk, t)])"
    and di: "distinct (r # rep # map snd qs @ [t])"
    and r0: "children (s3 r) = []"
  shows "\<exists>s4 s5. insert_intermediate s3 t r bprops = Inr s4
     \<and> rehang_all s4 rep (map fst (qs @ [(pk, t)])) bprops = Inr s5
     \<and> s5 t = (s3 t)\<lparr>up := Some r,
           props := (case props (s3 t) ''dist'' of None \<Rightarrow> props (s3 t)
              | Some d \<Rightarrow> (props (s3 t))(''dist'' \<mapsto> float_div d 2))\<rparr>
     \<and> up (s5 r) = None
     \<and> children (s5 r) = [t, last (rep # map snd qs)]
     \<and> up (s5 rep) = Some (snd (hd (qs @ [(pk, r)])))
     \<and> children (s5 rep) = pop_at (children (s3 rep)) (fst (hd (qs @ [(pk, t)])))
     \<and> rep \<in> set (children (s5 (snd (hd (qs @ [(pk, r)])))))
     \<and> (props (s5 rep) ''support'' = props (s3 rep) ''support''
        \<or> props (s5 rep) ''support'' = props (s4 (snd (hd (qs @ [(pk, r)])))) ''support'')
     \<and> (\<forall>k. props (s4 r) k =
           (if k \<in> set (''support'' # bprops) \<and> k \<noteq> ''dist'' \<and> props (s3 t) k \<noteq> None
              then props (s3 t) k
            else if k = ''dist'' \<and> props (s3 t) ''dist'' \<noteq> None
              then map_option (\<lambda>d. float_div d 2) (props (s3 t) ''dist'')
            else props (s3 r) k))
     \<and> (\<forall>c. c \<noteq> r \<and> c \<noteq> t \<longrightarrow> props (s4 c) = props (s3 c))
     \<and> (\<forall>c. c \<notin> set (r # rep # map snd qs @ [t]) \<longrightarrow> s5 c = s3 c)
     \<and> (''dist'' \<notin> set bprops \<longrightarrow> props (s5 r) ''dist'' = props (s3 rep) ''dist'')"
proof -
  define u' where "u' = last (rep # map snd qs)"
  have cq: "chain s3 rep qs" and ut: "up (s3 t) = Some u'"
    and it: "index_of (children (s3 u')) t = Some pk"
    using ch by (simp_all add: chain_snoc u'_def)
  have u'in: "u' \<in> set (rep # map snd qs)" unfolding u'_def by (rule last_in_set) simp
  have ne: "r \<noteq> t" "r \<noteq> u'" "t \<noteq> u'" using di u'in by auto
  have pkl: "pk < length (children (s3 u'))" using it by (simp add: index_of_Some_iff)
  obtain s4 where r4: "insert_intermediate s3 t r bprops = Inr s4"
    and s4_ru: "up (s4 r) = Some u'"
    and s4_rc: "children (s4 r) = children (s3 r) @ [t]"
    and s4_rp: "\<And>k. props (s4 r) k =
           (if k \<in> set (''support'' # bprops) \<and> k \<noteq> ''dist'' \<and> props (s3 t) k \<noteq> None
              then props (s3 t) k
            else if k = ''dist'' \<and> props (s3 t) ''dist'' \<noteq> None
              then map_option (\<lambda>d. float_div d 2) (props (s3 t) ''dist'')
            else props (s3 r) k)"
    and s4_t: "s4 t = (s3 t)\<lparr>up := Some r,
           props := (case props (s3 t) ''dist'' of None \<Rightarrow> props (s3 t)
              | Some d \<Rightarrow> (props (s3 t))(''dist'' \<mapsto> float_div d 2))\<rparr>"
    and s4_u: "s4 u' = (s3 u')\<lparr>children := (children (s3 u'))[pk := r]\<rparr>"
    and s4_o: "\<And>a. a \<noteq> r \<and> a \<noteq> t \<and> a \<noteq> u' \<Longrightarrow> s4 a = s3 a"
    using insert_intermediate_result [of s3 t u' pk r bprops, OF ut it ne] by blast
  have s4_props: "\<forall>c. c \<noteq> r \<and> c \<noteq> t \<longrightarrow> props (s4 c) = props (s3 c)"
  proof (intro allI impI)
    fix c assume "c \<noteq> r \<and> c \<noteq> t"
    then show "props (s4 c) = props (s3 c)"
      using s4_o [of c] s4_u by (cases "c = u'") simp_all
  qed
  have dq: "distinct (rep # map snd qs)" using di by simp
  have lq: "links s4 rep qs"
  proof -
    have "\<And>c. c \<in> set (butlast (rep # map snd qs)) \<Longrightarrow> children (s4 c) = children (s3 c)"
    proof -
      fix c assume c: "c \<in> set (butlast (rep # map snd qs))"
      have "u' \<notin> set (butlast (rep # map snd qs))"
        unfolding u'_def using dq by (intro last_notin_butlast) simp_all
      then have "c \<noteq> u'" using c by auto
      moreover have "c \<in> set (rep # map snd qs)" using c by (rule in_set_butlastD)
      then have "c \<noteq> r \<and> c \<noteq> t" using di by auto
      ultimately show "children (s4 c) = children (s3 c)" using s4_o [of c] by simp
    qed
    then have "links s4 rep qs = links s3 rep qs" by (rule links_agree_sources)
    then show ?thesis using chain_links [OF cq] by simp
  qed
  have "pk < length (children (s4 u')) \<and> children (s4 u') ! pk = r"
    using pkl by (simp add: s4_u)
  then have l4: "links s4 rep (qs @ [(pk, r)])"
    unfolding links_snoc u'_def [symmetric] using lq by simp
  have d4: "distinct (rep # map snd (qs @ [(pk, r)]))" using di by auto
  have ne4: "qs @ [(pk, r)] \<noteq> []" by simp
  obtain s5 where r5: "rehang_all s4 rep (map fst (qs @ [(pk, r)])) bprops = Inr s5"
    and fr: "\<And>c. c \<notin> set (rep # map snd (qs @ [(pk, r)])) \<Longrightarrow> s5 c = s4 c"
    and s5_ru: "up (s5 r) = None"
    and s5_rc: "children (s5 r) = children (s4 r) @ [u']"
    and s5_pu: "up (s5 rep) = Some (snd (hd (qs @ [(pk, r)])))"
    and s5_pc: "children (s5 rep) = pop_at (children (s4 rep)) (fst (hd (qs @ [(pk, r)])))"
    and s5_in: "rep \<in> set (children (s5 (snd (hd (qs @ [(pk, r)])))))"
    and s5_pp: "props (s5 rep) ''support'' = props (s4 rep) ''support''
        \<or> props (s5 rep) ''support'' = props (s4 (snd (hd (qs @ [(pk, r)])))) ''support''"
    using rehang_all_result [of s4 rep "qs @ [(pk, r)]" bprops "''support''", OF l4 d4] ne4
    by (auto simp: u'_def)
  have r5': "rehang_all s4 rep (map fst (qs @ [(pk, t)])) bprops = Inr s5"
    using r5 by simp
  have "t \<notin> set (rep # map snd (qs @ [(pk, r)]))" using di by auto
  then have s5_t: "s5 t = s4 t" by (rule fr)
  have pc: "pop_at (children (s4 rep)) (fst (hd (qs @ [(pk, r)])))
      = pop_at (children (s3 rep)) (fst (hd (qs @ [(pk, t)])))"
  proof (cases qs)
    case Nil
    then have "u' = rep" by (simp add: u'_def)
    then show ?thesis using Nil s4_u by (simp add: pop_at_list_update)
  next
    case (Cons x qs')
    then have "u' = last (map snd qs)" and "map snd qs \<noteq> []" by (simp_all add: u'_def)
    then have "u' \<in> set (map snd qs)" using last_in_set by blast
    then have "rep \<noteq> u'" using di by auto
    moreover have "rep \<noteq> r \<and> rep \<noteq> t" using di by auto
    ultimately have "s4 rep = s3 rep" using s4_o [of rep] by simp
    then show ?thesis using Cons by simp
  qed
  have pr: "props (s4 rep) = props (s3 rep)"
    using s4_props di by auto
  have fr3: "\<forall>c. c \<notin> set (r # rep # map snd qs @ [t]) \<longrightarrow> s5 c = s3 c"
  proof (intro allI impI)
    fix c assume c: "c \<notin> set (r # rep # map snd qs @ [t])"
    then have "c \<notin> set (rep # map snd (qs @ [(pk, r)]))" by auto
    then have "s5 c = s4 c" by (rule fr)
    moreover have "c \<noteq> r \<and> c \<noteq> t \<and> c \<noteq> u'" using c u'in by auto
    ultimately show "s5 c = s3 c" using s4_o [of c] by simp
  qed
  have rd: "''dist'' \<notin> set bprops \<longrightarrow> props (s5 r) ''dist'' = props (s3 rep) ''dist''"
  proof
    assume nd: "''dist'' \<notin> set bprops"
    have "props (s5 (snd (last (qs @ [(pk, r)])))) ''dist'' = props (s4 rep) ''dist''"
      using rehang_all_dist [OF l4 d4 ne4 nd r5] .
    then show "props (s5 r) ''dist'' = props (s3 rep) ''dist''" by (simp add: pr)
  qed
  have "children (s5 r) = [t, last (rep # map snd qs)]"
    by (simp add: s5_rc s4_rc r0 u'_def)
  then show ?thesis
    using r4 r5' s5_t s4_t s5_ru s5_pu s5_pc pc s5_in s5_pp pr s4_rp s4_props fr3 rd
    by (intro exI [where x = s4] exI [where x = s5]) simp
qed


lemma chain_after_take:
  assumes rt: "up (s r) = None"
    and ch: "chain s r ps"
    and di: "distinct (r # rep # map snd ps)"
    and kids: "\<And>c. c \<in> set (children (s r)) \<Longrightarrow> up (s c) = Some r"
    and s3: "s3 = (\<lambda>a. if a = rep then \<lparr>up = None, children = children (s r), props = Map.empty\<rparr>
              else if a = r then (s r)\<lparr>children := []\<rparr>
              else if a \<in> set (children (s r)) then (s a)\<lparr>up := Some rep\<rparr>
              else s a)"
  shows "chain s3 rep ps"
    and "\<And>b. b \<in> set (map snd (tl ps)) \<Longrightarrow> b \<notin> set (children (s r))"
proof -
  have tail: "b \<notin> set (children (s r))" if b: "b \<in> set (map snd (tl ps))" for b
  proof (cases ps)
    case Nil
    then show ?thesis using b by simp
  next
    case (Cons x rest)
    obtain p n1 where x: "x = (p, n1)" by (cases x)
    have "chain s n1 rest" using ch by (simp add: Cons x)
    moreover have "b \<in> set (map snd rest)" using b by (simp add: Cons)
    ultimately obtain a' where a': "a' \<in> set (n1 # map snd rest)" "up (s b) = Some a'"
      using chain_up_in [of s n1 rest b] by blast
    then have "a' \<noteq> r" using di by (auto simp: Cons x)
    then show ?thesis using a'(2) kids [of b] by auto
  qed
  then show "\<And>b. b \<in> set (map snd (tl ps)) \<Longrightarrow> b \<notin> set (children (s r))" .
  show "chain s3 rep ps"
  proof (cases ps)
    case Nil
    then show ?thesis by simp
  next
    case (Cons x rest)
    obtain p n1 where x: "x = (p, n1)" by (cases x)
    have n1: "up (s n1) = Some r" "index_of (children (s r)) n1 = Some p"
      and cr: "chain s n1 rest"
      using ch by (simp_all add: Cons x)
    have n1in: "n1 \<in> set (children (s r))"
      using n1(2) index_of_None_iff [of "children (s r)" n1] by auto
    have nn: "n1 \<noteq> rep" "n1 \<noteq> r" using di by (auto simp: Cons x)
    have "chain s3 n1 rest = chain s n1 rest"
    proof (rule chain_agree)
      fix c assume "c \<in> set (n1 # map snd rest)"
      then have "c \<noteq> rep \<and> c \<noteq> r" using di by (auto simp: Cons x)
      then show "children (s3 c) = children (s c)" by (simp add: s3)
    next
      fix c assume c: "c \<in> set (map snd rest)"
      then have "c \<noteq> rep \<and> c \<noteq> r" using di by (auto simp: Cons x)
      moreover have "c \<notin> set (children (s r))" using tail [of c] c by (simp add: Cons)
      ultimately show "up (s3 c) = up (s c)" by (simp add: s3)
    qed
    then have "chain s3 n1 rest" using cr by simp
    moreover have "up (s3 n1) = Some rep" using nn n1in by (simp add: s3)
    moreover have "index_of (children (s3 rep)) n1 = Some p" using n1(2) by (simp add: s3)
    ultimately show ?thesis by (simp add: Cons x)
  qed
qed


lemma set_outgroup_unfold:
  assumes rr: "root_of s t = Some r" and ni: "node_id s t = Some (Inr positions)"
    and con: "assert_root_consistency s r bprops = None" and tr: "t \<noteq> r"
    and s3: "s3 = (let s1 = s(rep := new_node); (cs, s2) = remove_children s1 r
          in add_children s2 rep cs)"
  shows "set_outgroup s t bprops rep =
     (case insert_intermediate s3 t r bprops of
        Inl e \<Rightarrow> Some (Inl e)
      | Inr s4 \<Rightarrow>
          (case rehang_all s4 rep positions bprops of
             Inl e \<Rightarrow> Some (Inl e)
           | Inr s5 \<Rightarrow>
               if length (children (s5 rep)) = 1
                 then Some (join_branch s5 rep)
               else Some (Inr s5)))"
  using tr by (simp add: set_outgroup_def rr ni con s3 Let_def case_prod_beta)

lemma two_children_support:
  assumes "children (s r) = cs" and "length (pop_at cs p) = 1" and "p < length cs"
    and "c \<in> set (pop_at cs p)"
    and con: "assert_root_consistency s r bprops = None"
  shows "props (s (cs ! p)) ''support'' = props (s c) ''support''"
proof -
  have "length cs = 2" using assms(2,3) by (simp add: length_pop_at)
  then obtain a b where cs: "cs = [a, b]"
    by (cases cs; cases "tl cs") auto
  have e: "props (s a) ''support'' = props (s b) ''support''"
    using assert_root_consistency_None(2) [OF con, of a b] assms(1) cs by simp
  have "p = 0 \<or> p = 1" using assms(3) cs by auto
  then show ?thesis using assms(4) e by (auto simp: cs pop_at_def)
qed


lemma set_outgroup_core:
  assumes rt: "up (s r) = None"
    and ch: "chain s r (qs @ [(pk, t)])"
    and di: "distinct (r # rep # map snd qs @ [t])"
    and fr: "rep \<notin> set (children (s r))"
    and kids: "\<And>c. c \<in> set (children (s r)) \<Longrightarrow> up (s c) = Some r"
    and dk: "distinct (children (s r))"
    and con: "assert_root_consistency s r bprops = None"
  shows "\<exists>s'. set_outgroup s t bprops rep = Some (Inr s')
     \<and> up (s' r) = None
     \<and> (\<exists>q. children (s' r) = [t, q])
     \<and> up (s' t) = Some r
     \<and> props (s' t) ''dist'' = map_option (\<lambda>d. float_div d 2) (props (s t) ''dist'')
     \<and> (''dist'' \<notin> set bprops \<longrightarrow> props (s' r) ''dist'' = None)"
proof -
  define ps where "ps = qs @ [(pk, t)]"
  define cs where "cs = children (s r)"
  define s3 where "s3 = (\<lambda>a. if a = rep then \<lparr>up = None, children = children (s r), props = Map.empty\<rparr>
              else if a = r then (s r)\<lparr>children := []\<rparr>
              else if a \<in> set (children (s r)) then (s a)\<lparr>up := Some rep\<rparr>
              else s a)"
  have chp: "chain s r ps" using ch by (simp add: ps_def)
  have dip: "distinct (r # rep # map snd ps)" using di by (simp add: ps_def)
  have lt: "last (r # map snd ps) = t" by (simp add: ps_def)
  have tr: "t \<noteq> r" and rep_r: "rep \<noteq> r" and rep_t: "rep \<noteq> t" using di by auto
  have rr: "root_of s t = Some r"
    using chain_root_of [OF chp] root_of_None [of s r, OF rt] by (simp only: lt)
  have ni: "node_id s t = Some (Inr (map fst ps))"
    using chain_node_id [OF chp, of "[]"] node_id_None [of s r, OF rt] by (simp only: lt) simp
  have rn: "r \<notin> set (children (s r))" using kids [of r] rt by auto
  have s3eq: "s3 = (let s1 = s(rep := new_node); (cs, s2) = remove_children s1 r
          in add_children s2 rep cs)"
    unfolding s3_def using take_children_result [where s = s and rep = rep and r = r, OF rep_r fr rn] by simp
  have unf: "set_outgroup s t bprops rep =
     (case insert_intermediate s3 t r bprops of
        Inl e \<Rightarrow> Some (Inl e)
      | Inr s4 \<Rightarrow>
          (case rehang_all s4 rep (map fst ps) bprops of
             Inl e \<Rightarrow> Some (Inl e)
           | Inr s5 \<Rightarrow>
               if length (children (s5 rep)) = 1
                 then Some (join_branch s5 rep)
               else Some (Inr s5)))"
    by (rule set_outgroup_unfold [OF rr ni con tr s3eq])
  have ch3: "chain s3 rep ps"
    and tail: "\<And>b. b \<in> set (map snd (tl ps)) \<Longrightarrow> b \<notin> set cs"
    using chain_after_take [where s = s and r = r and ps = ps and rep = rep and ?s3.0 = s3, OF rt chp dip kids s3_def] by (simp_all add: cs_def)
  have r0: "children (s3 r) = []" using rep_r by (simp add: s3_def)
  have s3t: "props (s3 t) = props (s t)" using tr rep_t by (simp add: s3_def)
  have s3rep: "props (s3 rep) ''support'' = None" "children (s3 rep) = cs"
    by (simp_all add: s3_def cs_def)
  define u' where "u' = last (rep # map snd qs)"
  define m1 where "m1 = snd (hd (qs @ [(pk, r)]))"
  define p1 where "p1 = fst (hd ps)"
  define n1 where "n1 = snd (hd ps)"
  have "\<exists>s4 s5. (insert_intermediate s3 t r bprops = Inr s4)
     \<and> (rehang_all s4 rep (map fst (qs @ [(pk, t)])) bprops = Inr s5)
     \<and> (s5 t = (s3 t)\<lparr>up := Some r,
           props := (case props (s3 t) ''dist'' of None \<Rightarrow> props (s3 t)
              | Some d \<Rightarrow> (props (s3 t))(''dist'' \<mapsto> float_div d 2))\<rparr>)
     \<and> (up (s5 r) = None)
     \<and> (children (s5 r) = [t, last (rep # map snd qs)])
     \<and> (up (s5 rep) = Some (snd (hd (qs @ [(pk, r)]))))
     \<and> (children (s5 rep) = pop_at (children (s3 rep)) (fst (hd (qs @ [(pk, t)]))))
     \<and> (rep \<in> set (children (s5 (snd (hd (qs @ [(pk, r)]))))))
     \<and> (props (s5 rep) ''support'' = props (s3 rep) ''support''
        \<or> props (s5 rep) ''support'' = props (s4 (snd (hd (qs @ [(pk, r)])))) ''support'')
     \<and> (\<forall>k. props (s4 r) k =
           (if k \<in> set (''support'' # bprops) \<and> k \<noteq> ''dist'' \<and> props (s3 t) k \<noteq> None
              then props (s3 t) k
            else if k = ''dist'' \<and> props (s3 t) ''dist'' \<noteq> None
              then map_option (\<lambda>d. float_div d 2) (props (s3 t) ''dist'')
            else props (s3 r) k))
     \<and> (\<forall>c. c \<noteq> r \<and> c \<noteq> t \<longrightarrow> props (s4 c) = props (s3 c))
     \<and> (\<forall>c. c \<notin> set (r # rep # map snd qs @ [t]) \<longrightarrow> s5 c = s3 c)
     \<and> (''dist'' \<notin> set bprops \<longrightarrow> props (s5 r) ''dist'' = props (s3 rep) ''dist'')"
    using insert_and_rehang [of s3 rep qs pk t r bprops, OF ch3 [unfolded ps_def] di r0]
    by (simp only: conj_assoc)
  then obtain s4 s5 where big: "(insert_intermediate s3 t r bprops = Inr s4)
     \<and> (rehang_all s4 rep (map fst (qs @ [(pk, t)])) bprops = Inr s5)
     \<and> (s5 t = (s3 t)\<lparr>up := Some r,
           props := (case props (s3 t) ''dist'' of None \<Rightarrow> props (s3 t)
              | Some d \<Rightarrow> (props (s3 t))(''dist'' \<mapsto> float_div d 2))\<rparr>)
     \<and> (up (s5 r) = None)
     \<and> (children (s5 r) = [t, last (rep # map snd qs)])
     \<and> (up (s5 rep) = Some (snd (hd (qs @ [(pk, r)]))))
     \<and> (children (s5 rep) = pop_at (children (s3 rep)) (fst (hd (qs @ [(pk, t)]))))
     \<and> (rep \<in> set (children (s5 (snd (hd (qs @ [(pk, r)]))))))
     \<and> (props (s5 rep) ''support'' = props (s3 rep) ''support''
        \<or> props (s5 rep) ''support'' = props (s4 (snd (hd (qs @ [(pk, r)])))) ''support'')
     \<and> (\<forall>k. props (s4 r) k =
           (if k \<in> set (''support'' # bprops) \<and> k \<noteq> ''dist'' \<and> props (s3 t) k \<noteq> None
              then props (s3 t) k
            else if k = ''dist'' \<and> props (s3 t) ''dist'' \<noteq> None
              then map_option (\<lambda>d. float_div d 2) (props (s3 t) ''dist'')
            else props (s3 r) k))
     \<and> (\<forall>c. c \<noteq> r \<and> c \<noteq> t \<longrightarrow> props (s4 c) = props (s3 c))
     \<and> (\<forall>c. c \<notin> set (r # rep # map snd qs @ [t]) \<longrightarrow> s5 c = s3 c)
     \<and> (''dist'' \<notin> set bprops \<longrightarrow> props (s5 r) ''dist'' = props (s3 rep) ''dist'')"
    by (elim exE)
  have r4: "insert_intermediate s3 t r bprops = Inr s4"
    using big by (elim conjE)
  have r5q: "rehang_all s4 rep (map fst (qs @ [(pk, t)])) bprops = Inr s5"
    using big by (elim conjE)
  have s5_t: "s5 t = (s3 t)\<lparr>up := Some r,
           props := (case props (s3 t) ''dist'' of None \<Rightarrow> props (s3 t)
              | Some d \<Rightarrow> (props (s3 t))(''dist'' \<mapsto> float_div d 2))\<rparr>"
    using big by (elim conjE)
  have s5_ru: "up (s5 r) = None"
    using big by (elim conjE)
  have s5_rcq: "children (s5 r) = [t, last (rep # map snd qs)]"
    using big by (elim conjE)
  have s5_puq: "up (s5 rep) = Some (snd (hd (qs @ [(pk, r)])))"
    using big by (elim conjE)
  have s5_pcq: "children (s5 rep) = pop_at (children (s3 rep)) (fst (hd (qs @ [(pk, t)])))"
    using big by (elim conjE)
  have s5_inq: "rep \<in> set (children (s5 (snd (hd (qs @ [(pk, r)])))))"
    using big by (elim conjE)
  have s5_ppq: "props (s5 rep) ''support'' = props (s3 rep) ''support''
        \<or> props (s5 rep) ''support'' = props (s4 (snd (hd (qs @ [(pk, r)])))) ''support''"
    using big by (elim conjE)
  have s4_rpq: "\<forall>k. props (s4 r) k =
           (if k \<in> set (''support'' # bprops) \<and> k \<noteq> ''dist'' \<and> props (s3 t) k \<noteq> None
              then props (s3 t) k
            else if k = ''dist'' \<and> props (s3 t) ''dist'' \<noteq> None
              then map_option (\<lambda>d. float_div d 2) (props (s3 t) ''dist'')
            else props (s3 r) k)"
    using big by (elim conjE)
  have s4_propsq: "\<forall>c. c \<noteq> r \<and> c \<noteq> t \<longrightarrow> props (s4 c) = props (s3 c)"
    using big by (elim conjE)
  have fr5q: "\<forall>c. c \<notin> set (r # rep # map snd qs @ [t]) \<longrightarrow> s5 c = s3 c"
    using big by (elim conjE)
  have rdq: "''dist'' \<notin> set bprops \<longrightarrow> props (s5 r) ''dist'' = props (s3 rep) ''dist''"
    using big by (elim conjE)
  have rd5: "''dist'' \<notin> set bprops \<longrightarrow> props (s5 r) ''dist'' = None"
    using rdq by (simp add: s3_def)
  have r5: "rehang_all s4 rep (map fst ps) bprops = Inr s5"
    using r5q by (simp only: ps_def)
  have s5_rc: "children (s5 r) = [t, u']" using s5_rcq by (simp only: u'_def)
  have s5_pu: "up (s5 rep) = Some m1" using s5_puq by (simp only: m1_def)
  have s5_pc: "children (s5 rep) = pop_at cs p1"
    using s5_pcq by (simp only: p1_def ps_def s3rep)
  have s5_in: "rep \<in> set (children (s5 m1))" using s5_inq by (simp only: m1_def)
  have s5_pp: "props (s5 rep) ''support'' = None
        \<or> props (s5 rep) ''support'' = props (s4 m1) ''support''"
    using s5_ppq by (simp only: m1_def s3rep)
  have s4_rp: "props (s4 r) ''support'' =
           (if props (s3 t) ''support'' \<noteq> None then props (s3 t) ''support''
            else props (s3 r) ''support'')"
    using s4_rpq [rule_format, of "''support''"] by simp
  have s4_props: "\<And>c. c \<noteq> r \<and> c \<noteq> t \<Longrightarrow> props (s4 c) = props (s3 c)"
    using s4_propsq by blast
  have fr5: "\<And>c. c \<notin> set (r # rep # map snd ps) \<Longrightarrow> s5 c = s3 c"
    using fr5q by (simp add: ps_def)
  have dist_t: "props (s5 t) ''dist'' = map_option (\<lambda>d. float_div d 2) (props (s t) ''dist'')"
    by (simp add: s5_t s3t split: option.splits)
  have up_t: "up (s5 t) = Some r" by (simp add: s5_t)
  show ?thesis
  proof (cases "length (children (s5 rep)) = 1")
    case False
    then have "set_outgroup s t bprops rep = Some (Inr s5)"
      by (simp add: unf r4 r5)
    then show ?thesis
      using s5_ru s5_rc up_t dist_t rd5 by (intro exI [where x = s5]) simp
  next
    case True
    then have res: "set_outgroup s t bprops rep = Some (join_branch s5 rep)"
      by (simp add: unf r4 r5)
    obtain c where c: "children (s5 rep) = [c]"
      using True by (cases "children (s5 rep)") auto
    have psne: "ps \<noteq> []" by (simp add: ps_def)
    have hd_ps: "ps = (p1, n1) # tl ps" using psne by (simp add: p1_def n1_def)
    have n1i: "index_of cs n1 = Some p1"
      using chp by (subst (asm) hd_ps) (simp add: cs_def)
    then have p1l: "p1 < length cs" and p1n: "cs ! p1 = n1"
      by (simp_all add: index_of_Some_iff)
    have "c \<in> set (children (s5 rep))" by (simp add: c)
    then have cin: "c \<in> set (pop_at cs p1)" by (simp only: s5_pc)
    have ccs: "c \<in> set cs" by (rule subsetD [OF set_pop_at_subset cin])
    have dcs: "distinct cs" using dk by (simp only: cs_def)
    have "cs ! p1 \<notin> set (pop_at cs p1)" using dcs p1l by (rule nth_notin_pop_at)
    then have c_n1: "c \<noteq> n1" using cin p1n by auto
    have c_rep: "c \<noteq> rep" using ccs fr by (auto simp: cs_def)
    have c_r: "c \<noteq> r" using ccs rn by (auto simp: cs_def)
    have c_tail: "c \<notin> set (map snd (tl ps))" using tail [of c] ccs by auto
    have "set (map snd ps) = insert n1 (set (map snd (tl ps)))"
      by (subst hd_ps) simp
    then have c_ps: "c \<notin> set (map snd ps)" using c_n1 c_tail by simp
    then have c_out: "c \<notin> set (r # rep # map snd ps)" using c_rep c_r by simp
    have s5c: "s5 c = (s c)\<lparr>up := Some rep\<rparr>"
      using fr5 [OF c_out] c_rep c_r ccs by (simp add: s3_def cs_def)
    have len: "length (pop_at cs p1) = 1" using True by (simp add: s5_pc)
    have sup_eq: "props (s n1) ''support'' = props (s c) ''support''"
      using two_children_support [of s r cs p1 c bprops, OF cs_def [symmetric] len p1l cin con]
      by (simp only: p1n)
    have m1_cases: "(qs = [] \<and> m1 = r \<and> n1 = t) \<or> (qs \<noteq> [] \<and> m1 = n1 \<and> n1 \<noteq> t)"
    proof (cases qs)
      case Nil
      then show ?thesis by (simp add: m1_def n1_def ps_def)
    next
      case (Cons x qs')
      then have "n1 \<in> set (map snd qs)" by (simp add: n1_def ps_def)
      then have "n1 \<noteq> t" using di by auto
      then show ?thesis using Cons by (simp add: m1_def n1_def ps_def)
    qed
    have n1_ps: "n1 \<in> set (map snd ps)" by (subst hd_ps) simp
    then have n1_r: "n1 \<noteq> r" and n1_rep: "n1 \<noteq> rep" using dip by auto
    have m1sup: "props (s4 m1) ''support'' = props (s n1) ''support''"
      using m1_cases
    proof
      assume a: "qs = [] \<and> m1 = r \<and> n1 = t"
      have "props (s3 r) ''support'' = None"
        using assert_root_consistency_None(1) [OF con] rep_r by (simp add: s3_def)
      then show ?thesis using a by (auto simp: s4_rp s3t)
    next
      assume a: "qs \<noteq> [] \<and> m1 = n1 \<and> n1 \<noteq> t"
      then have "props (s4 n1) = props (s3 n1)" using s4_props [of n1] n1_r by simp
      moreover have "props (s3 n1) = props (s n1)" using n1_r n1_rep by (simp add: s3_def)
      ultimately show ?thesis using a by simp
    qed
    have sup: "props (s5 rep) ''support'' = None \<or> props (s5 c) ''support'' = None
      \<or> props (s5 rep) ''support'' = props (s5 c) ''support''"
      using s5_pp by (auto simp: m1sup sup_eq s5c)
    have c_m1: "c \<noteq> m1" using m1_cases c_r c_n1 by auto
    obtain p where ip: "index_of (children (s5 m1)) rep = Some p"
      using index_of_mem [OF s5_in] by blast
    have "\<exists>s6. join_branch s5 rep = Inr s6
        \<and> s6 m1 = (s5 m1)\<lparr>children := (children (s5 m1))[p := c]\<rparr>
        \<and> (\<forall>a. a \<noteq> c \<and> a \<noteq> m1 \<longrightarrow> s6 a = s5 a)"
      using join_branch_result [of s5 rep c m1 p, OF c sup s5_pu ip c_rep c_m1]
      by (elim exE conjE) (intro exI conjI, assumption+)
    then obtain s6 where big6: "join_branch s5 rep = Inr s6
        \<and> s6 m1 = (s5 m1)\<lparr>children := (children (s5 m1))[p := c]\<rparr>
        \<and> (\<forall>a. a \<noteq> c \<and> a \<noteq> m1 \<longrightarrow> s6 a = s5 a)"
      by (elim exE)
    have r6: "join_branch s5 rep = Inr s6" using big6 by (elim conjE)
    have s6_m: "s6 m1 = (s5 m1)\<lparr>children := (children (s5 m1))[p := c]\<rparr>"
      using big6 by (elim conjE)
    have s6_o: "\<And>a. a \<noteq> c \<and> a \<noteq> m1 \<Longrightarrow> s6 a = s5 a"
      using big6 by (elim conjE) simp
    have t_c: "t \<noteq> c" using c_ps by (auto simp: ps_def)
    have t_m1: "t \<noteq> m1" using m1_cases tr by auto
    have s6t: "s6 t = s5 t" using s6_o [of t] t_c t_m1 by simp
    have r_fin: "up (s6 r) = None \<and> (\<exists>q. children (s6 r) = [t, q])
        \<and> props (s6 r) = props (s5 r)"
    proof (cases "m1 = r")
      case False
      then have "s6 r = s5 r" using s6_o [of r] c_r by simp
      then show ?thesis using s5_ru s5_rc by simp
    next
      case True
      have "index_of [t, u'] rep = Some p" using ip True by (simp add: s5_rc)
      then have "p = 1" using rep_t by (auto split: if_splits)
      then have "children (s6 r) = [t, c]" using s6_m True by (simp add: s5_rc)
      moreover have "up (s6 r) = None" using s6_m True s5_ru by simp
      moreover have "props (s6 r) = props (s5 r)" using s6_m True by simp
      ultimately show ?thesis by simp
    qed
    show ?thesis
      using res r6 r_fin s6t up_t dist_t rd5 by (intro exI [where x = s6]) simp
  qed
qed







text \<open>
  The summed \<open>dist\<close> along the path from a node up to the root of its tree (a missing
  \<open>dist\<close> counts as 0), to state what rerooting does to root-to-leaf lengths.
\<close>

definition path_length :: "store \<Rightarrow> addr \<Rightarrow> rat option" where
  "path_length s n =
     map_option
       (\<lambda>l. sum_list (map (\<lambda>a. case props (s a) ''dist'' of None \<Rightarrow> 0 | Some d \<Rightarrow> d) l))
       (lineage s n)"

lemma ex_store_well_formed:
  "up (ex_store 0) = None"
  "chain ex_store 0 ([(0, 1)] @ [(0, 3)])"
  "distinct (0 # 9 # map snd [(0, 1 :: addr)] @ [3 :: addr])"
  "9 \<notin> set (children (ex_store 0))"
  "\<And>c. c \<in> set (children (ex_store 0)) \<Longrightarrow> up (ex_store c) = Some 0"
  "distinct (children (ex_store 0))"
  "assert_root_consistency ex_store 0 [] = None"
  by (auto simp: ex_store_def assert_root_consistency_def)

lemma ex_store_rerooted:
  "\<exists>s'. set_outgroup ex_store 3 [] 9 = Some (Inr s')
     \<and> up (s' 0) = None \<and> lineage s' 3 = Some [3, 0]
     \<and> props (s' 3) ''dist'' = Some (1 / 2) \<and> props (s' 0) ''dist'' = None"
proof -
  obtain s' where r: "set_outgroup ex_store 3 [] 9 = Some (Inr s')"
    and u0: "up (s' 0) = None" and u3: "up (s' 3) = Some 0"
    and d3: "props (s' 3) ''dist'' = map_option (\<lambda>d. float_div d 2) (props (ex_store 3) ''dist'')"
    and d0: "''dist'' \<notin> set ([] :: string list) \<longrightarrow> props (s' 0) ''dist'' = None"
    using set_outgroup_core [of ex_store 0 "[(0, 1)]" 0 3 9 "[]", OF ex_store_well_formed]
    by blast
  have "lineage s' 0 = Some [0]" using lineage_root [of s' 0] u0 by simp
  then have "lineage s' 3 = Some [3, 0]" using lineage_up [of s' 3 0] u3 by simp
  moreover have "props (s' 3) ''dist'' = Some (1 / 2)"
    using d3 one_double(2) by (simp add: ex_store_def)
  moreover have "props (s' 0) ''dist'' = None" using d0 by simp
  ultimately show ?thesis using r u0 by (intro exI [where x = s']) simp
qed

lemma ex_store_path_length: "path_length ex_store 3 = Some 3"
proof -
  have u: "up (ex_store 0) = None" "up (ex_store 1) = Some 0" "up (ex_store 3) = Some 1"
    by (simp_all add: ex_store_def)
  have l0: "lineage ex_store 0 = Some [0]"
    by (rule lineage_root) (rule u)
  have l1: "lineage ex_store 1 = Some [1, 0]"
    unfolding lineage_up [of ex_store 1 0, OF u(2)] l0 by simp
  have l3: "lineage ex_store 3 = Some [3, 1, 0]"
    unfolding lineage_up [of ex_store 3 1, OF u(3)] l1 by simp
  show ?thesis by (simp add: path_length_def l3) (simp add: ex_store_def)
qed


text \<open>
  Claim C1, as amended. Take a tree in the store: \<open>r\<close> its root, a path of child positions
  and nodes from \<open>r\<close> down to the node \<open>t\<close>, every node of the path a different object, the
  children of \<open>r\<close> distinct and with \<open>r\<close> as their parent, a root that passes
  \<open>assert_root_consistency\<close>, an unused address for the replacement node, and the
  \<open>dist\<close> of \<open>t\<close>, if it has one, a finite double. Then \<open>set_outgroup\<close> returns; afterwards the former root object \<open>r\<close> has no parent and is
  the root of \<open>t\<close>, it has two children of which \<open>t\<close> is the first, \<open>t\<close> has \<open>r\<close> as
  parent and keeps the rounded half of its \<open>dist\<close>, and \<open>r\<close> has no \<open>dist\<close> (when
  \<^verbatim>\<open>'dist'\<close> is not named among the extra branch properties).
\<close>

theorem set_outgroup_new_root:
  assumes rt: "up (s r) = None"
    and ch: "chain s r (qs @ [(pk, t)])"
    and di: "distinct (r # rep # map snd qs @ [t])"
    and fr: "rep \<notin> set (children (s r))"
    and kids: "\<And>c. c \<in> set (children (s r)) \<Longrightarrow> up (s c) = Some r"
    and dk: "distinct (children (s r))"
    and con: "assert_root_consistency s r bprops = None"
    and fd: "\<And>d. props (s t) ''dist'' = Some d \<Longrightarrow> finite_double d"
  shows "\<exists>s'. set_outgroup s t bprops rep = Some (Inr s')
     \<and> up (s' r) = None \<and> root_of s' t = Some r
     \<and> (\<exists>q. children (s' r) = [t, q])
     \<and> up (s' t) = Some r
     \<and> props (s' t) ''dist'' = map_option (\<lambda>d. float_div d 2) (props (s t) ''dist'')
     \<and> (''dist'' \<notin> set bprops \<longrightarrow> props (s' r) ''dist'' = None)"
proof -
  obtain s' where r: "set_outgroup s t bprops rep = Some (Inr s')"
    and u: "up (s' r) = None" "up (s' t) = Some r"
    and o: "\<exists>q. children (s' r) = [t, q]"
      "props (s' t) ''dist'' = map_option (\<lambda>d. float_div d 2) (props (s t) ''dist'')"
      "''dist'' \<notin> set bprops \<longrightarrow> props (s' r) ''dist'' = None"
    using set_outgroup_core [OF rt ch di fr kids dk con] by blast
  have "root_of s' t = Some r"
    using root_of_Some [of s' t r] root_of_None [of s' r] u by simp
  then show ?thesis using r u o by (intro exI [where x = s']) simp
qed

theorem set_outgroup_new_root_witness:
  "up (ex_store 0) = None \<and> children (ex_store 0) = [1, 2]
   \<and> up (ex_store 1) = Some 0 \<and> up (ex_store 2) = Some 0
   \<and> children (ex_store 1) = [3, 4] \<and> up (ex_store 3) = Some 1
   \<and> assert_root_consistency ex_store 0 [] = None
   \<and> props (ex_store 3) ''dist'' = Some 1 \<and> finite_double 1
   \<and> (\<exists>s'. set_outgroup ex_store 3 [] 9 = Some (Inr s')
        \<and> up (s' 0) = None \<and> root_of s' 3 = Some 0 \<and> children (s' 0) ! 0 = 3
        \<and> props (s' 3) ''dist'' = Some (1 / 2) \<and> props (s' 0) ''dist'' = None)"
proof -
  have fd: "finite_double 1" using one_double(1) by (simp add: finite_double_def)
  have p3: "props (ex_store 3) ''dist'' = Some 1" by (simp add: ex_store_def)
  have fd3: "\<And>d. props (ex_store 3) ''dist'' = Some d \<Longrightarrow> finite_double d"
    using fd p3 by simp
  obtain s' where "set_outgroup ex_store 3 [] 9 = Some (Inr s')"
    and "up (s' 0) = None" and "root_of s' 3 = Some 0"
    and "\<exists>q. children (s' 0) = [3, q]"
    and "props (s' 3) ''dist'' = map_option (\<lambda>d. float_div d 2) (props (ex_store 3) ''dist'')"
    and "''dist'' \<notin> set ([] :: string list) \<longrightarrow> props (s' 0) ''dist'' = None"
    using set_outgroup_new_root [of ex_store 0 "[(0, 1)]" 0 3 9 "[]",
        OF ex_store_well_formed fd3]
    by blast
  then have "set_outgroup ex_store 3 [] 9 = Some (Inr s')
        \<and> up (s' 0) = None \<and> root_of s' 3 = Some 0 \<and> children (s' 0) ! 0 = 3
        \<and> props (s' 3) ''dist'' = Some (1 / 2) \<and> props (s' 0) ''dist'' = None"
    using one_double(2) by (auto simp: ex_store_def)
  then have "\<exists>s'. set_outgroup ex_store 3 [] 9 = Some (Inr s')
        \<and> up (s' 0) = None \<and> root_of s' 3 = Some 0 \<and> children (s' 0) ! 0 = 3
        \<and> props (s' 3) ''dist'' = Some (1 / 2) \<and> props (s' 0) ''dist'' = None"
    by (rule exI [where x = s'])
  moreover have "up (ex_store 0) = None \<and> children (ex_store 0) = [1, 2]
   \<and> up (ex_store 1) = Some 0 \<and> up (ex_store 2) = Some 0
   \<and> children (ex_store 1) = [3, 4] \<and> up (ex_store 3) = Some 1"
    by (simp add: ex_store_def)
  ultimately show ?thesis using ex_store_well_formed(7) fd p3 by simp
qed

text \<open>
  The claim as stated says that the summed branch length along a root-to-leaf path is
  unchanged. In the example tree the leaf \<open>a\<close> (address 3) is at length 3 from the root;
  after rerooting at \<open>a\<close> it is at length 1/2.
\<close>

theorem set_outgroup_path_length_counterexample:
  "(case set_outgroup ex_store 3 [] 9 of
      Some (Inr s') \<Rightarrow>
        path_length ex_store 3 = Some 3 \<and> path_length s' 3 = Some (1 / 2)
    | _ \<Rightarrow> False)"
proof -
  obtain s' where r: "set_outgroup ex_store 3 [] 9 = Some (Inr s')"
    and l: "lineage s' 3 = Some [3, 0]"
    and d: "props (s' 3) ''dist'' = Some (1 / 2)" "props (s' 0) ''dist'' = None"
    using ex_store_rerooted by blast
  have "path_length s' 3 = Some (1 / 2)" by (simp add: path_length_def l d)
  then show ?thesis using ex_store_path_length by (simp add: r)
qed




section \<open>Random topologies\<close>

text \<open>
  \<^verbatim>\<open>populate\<close> creates nodes, draws random numbers and names the leaves. The objects
  that \<^verbatim>\<open>NewNode()\<close> and \<^verbatim>\<open>p.add_child()\<close> create are placed at the addresses
  \<open>fresh 0\<close>, \<open>fresh 1\<close>, ... in the order of their creation; \<open>randint i\<close> is what
  \<^verbatim>\<open>random.randint(0, 1)\<close> returns in iteration \<open>i\<close> and \<open>uniform k a b\<close> what the call
  number \<open>k\<close> of \<^verbatim>\<open>random.uniform(a, b)\<close> returns. The name of a node (\<^verbatim>\<open>node.name\<close>) is
  kept in a map of its own beside the store.
\<close>

record env =
  fresh :: "nat \<Rightarrow> addr"
  randint :: "nat \<Rightarrow> int"
  uniform :: "nat \<Rightarrow> rat \<Rightarrow> rat \<Rightarrow> rat"















section \<open>Failed preconditions\<close>



end
